theory Spec2Isabelle
  imports Complex_Main "HOL-Library.Char_ord"
begin

section \<open>Embedded Music Score: the compile-time parser of \<open>ems_parser.hpp\<close>\<close>

text \<open>
  The header \<open>include/ems_parser.hpp\<close> turns a score string into a fixed-size array of
  \<open>Note {float ratio; uint32_t duration_ms;}\<close>.  All its functions are \<open>consteval\<close>:
  they run inside the C++ constant evaluator, where an operation with undefined
  behaviour (division by zero, a floating-point result that is not finite, signed
  overflow, a conversion out of range, an index out of bounds) is not a constant
  expression and stops the evaluation.  The model therefore returns \<open>error + 'a\<close>
  wherever the source can hit such an operation.
\<close>

datatype error =
    Division_By_Zero
  | Float_Overflow
  | Int_Overflow
  | Cast_Out_Of_Range
  | Index_Out_Of_Range

subsection \<open>Single-precision arithmetic\<close>

text \<open>
  A finite \<open>float\<close> is modelled by the rational number it denotes.  Every arithmetic
  operation computes the exact rational result and rounds it to the nearest binary32
  value (24-bit significand, ties to even, gradual underflow below \<open>2\<^sup>-\<^sup>1\<^sup>2\<^sup>6\<close>); a
  rounded result beyond \<open>FLT_MAX\<close> is an overflow.
\<close>

type_synonym f32 = rat

definition pow2 :: "int \<Rightarrow> rat" where
  "pow2 e = (if 0 \<le> e then 2 ^ nat e else 1 / 2 ^ nat (- e))"

function bit_length :: "int \<Rightarrow> int" where
  "bit_length n = (if n \<le> 0 then 0 else 1 + bit_length (n div 2))"
  by pat_completeness auto
termination
  by (relation "measure nat") auto

declare bit_length.simps [simp del]

text \<open>\<open>ilog2 x\<close> is the exponent \<open>e\<close> with \<open>2\<^sup>e \<le> x < 2\<^sup>e\<^sup>+\<^sup>1\<close>, for \<open>x > 0\<close>.\<close>

definition ilog2 :: "rat \<Rightarrow> int" where
  "ilog2 x = (if 1 \<le> x then bit_length \<lfloor>x\<rfloor> - 1 else - bit_length (\<lceil>1 / x\<rceil> - 1))"

definition round_half_even :: "rat \<Rightarrow> int" where
  "round_half_even x =
     (let f = \<lfloor>x\<rfloor>; d = x - of_int f
      in if d < 1 / 2 then f else if 1 / 2 < d then f + 1
         else if even f then f else f + 1)"

definition round_f32 :: "rat \<Rightarrow> f32" where
  "round_f32 x =
     (if x = 0 then 0
      else let e = max (ilog2 \<bar>x\<bar>) (- 126); q = pow2 (e - 23)
           in of_int (round_half_even (x / q)) * q)"

definition FLT_MAX :: rat where
  "FLT_MAX = (2 ^ 24 - 1) * 2 ^ 104"

definition to_f32 :: "rat \<Rightarrow> error + f32" where
  "to_f32 x = (let r = round_f32 x in if \<bar>r\<bar> \<le> FLT_MAX then Inr r else Inl Float_Overflow)"

definition fadd :: "f32 \<Rightarrow> f32 \<Rightarrow> error + f32" where
  "fadd a b = to_f32 (a + b)"

definition fmul :: "f32 \<Rightarrow> f32 \<Rightarrow> error + f32" where
  "fmul a b = to_f32 (a * b)"

definition fdiv :: "f32 \<Rightarrow> f32 \<Rightarrow> error + f32" where
  "fdiv a b = (if b = 0 then Inl Division_By_Zero else to_f32 (a / b))"

text \<open>\<open>static_cast<float>(int)\<close>: every \<open>int\<close> is within the range of \<open>float\<close>.\<close>

definition int_to_f32 :: "int \<Rightarrow> f32" where
  "int_to_f32 n = round_f32 (of_int n)"

text \<open>
  \<open>static_cast<uint32_t>(float)\<close> truncates towards zero; the behaviour is undefined
  when the truncated value is not representable in \<open>uint32_t\<close>.
\<close>

definition f32_to_u32 :: "f32 \<Rightarrow> error + nat" where
  "f32_to_u32 x =
     (let t = (if 0 \<le> x then \<lfloor>x\<rfloor> else - \<lfloor>- x\<rfloor>)
      in if 0 \<le> t \<and> t < 2 ^ 32 then Inr (nat t) else Inl Cast_Out_Of_Range)"

definition INT_MAX :: int where
  "INT_MAX = 2 ^ 31 - 1"

definition INT_MIN :: int where
  "INT_MIN = - (2 ^ 31)"

definition in_int :: "int \<Rightarrow> bool" where
  "in_int n = (INT_MIN \<le> n \<and> n \<le> INT_MAX)"

subsection \<open>The note event\<close>

record Note =
  ratio :: f32
  duration_ms :: nat

subsection \<open>\<open>power\<close> and \<open>calculate_ratio\<close>\<close>

text \<open>
  The \<open>for\<close> loop of \<open>power\<close>: \<open>for (int i = 0; i < exp; ++i) res *= base;\<close>
  (the parameter \<open>exp\<close> is written \<open>ex\<close>, \<open>exp\<close> being the exponential function of HOL).
\<close>

function power_loop :: "f32 \<Rightarrow> int \<Rightarrow> int \<Rightarrow> f32 \<Rightarrow> error + f32" where
  "power_loop base ex i res =
     (if i < ex
      then (case fmul res base of
              Inl e \<Rightarrow> Inl e
            | Inr r \<Rightarrow> power_loop base ex (i + 1) r)
      else Inr res)"
  by pat_completeness auto
termination
  by (relation "measure (\<lambda>(base, ex, i, res). nat (ex - i))") auto

declare power_loop.simps [simp del]

function power_f32 :: "f32 \<Rightarrow> int \<Rightarrow> error + f32" where
  "power_f32 base ex =
     (if ex = 0 then Inr 1
      else if ex < 0
      then (if ex = INT_MIN then Inl Int_Overflow
            else (case power_f32 base (- ex) of
                    Inl e \<Rightarrow> Inl e
                  | Inr p \<Rightarrow> fdiv 1 p))
      else power_loop base ex 0 1)"
  by pat_completeness auto
termination
  by (relation "measure (\<lambda>(base, ex). if ex < 0 then 1 else 0)") auto

declare power_f32.simps [simp del]

definition scale_semitones :: "int list" where
  "scale_semitones = [0, 0, 2, 4, 5, 7, 9, 11]"

text \<open>\<open>constexpr float SEMITONE_STEP = 1.059463094f;\<close>\<close>

definition SEMITONE_STEP :: f32 where
  "SEMITONE_STEP = round_f32 (1059463094 / 1000000000)"

definition calculate_ratio :: "int \<Rightarrow> int \<Rightarrow> int \<Rightarrow> error + f32" where
  "calculate_ratio note_num octave_offset semitone_offset =
     (if note_num = 0 then Inr 0
      else if note_num < 0 \<or> 8 \<le> note_num then Inl Index_Out_Of_Range
      else
        let semitones_from_C4 =
              scale_semitones ! nat note_num + octave_offset * 12 + semitone_offset;
            semitones_from_A4 = semitones_from_C4 - 9
        in if in_int (octave_offset * 12)
              \<and> in_int (scale_semitones ! nat note_num + octave_offset * 12)
              \<and> in_int semitones_from_C4 \<and> in_int semitones_from_A4
           then power_f32 SEMITONE_STEP semitones_from_A4
           else Inl Int_Overflow)"

subsection \<open>\<open>parse_int\<close>\<close>

definition is_digit :: "char \<Rightarrow> bool" where
  "is_digit c = (CHR ''0'' \<le> c \<and> c \<le> CHR ''9'')"

text \<open>The note digits: \<open>c >= '0' && c <= '7'\<close>.\<close>

definition is_note_digit :: "char \<Rightarrow> bool" where
  "is_note_digit c = (CHR ''0'' \<le> c \<and> c \<le> CHR ''7'')"

text \<open>\<open>c - '0'\<close>\<close>

definition digit_val :: "char \<Rightarrow> int" where
  "digit_val c = of_char c - of_char CHR ''0''"

text \<open>
  The \<open>while\<close> loop of \<open>parse_int\<close>, with the local \<open>val\<close> as an argument and the
  reference parameter \<open>idx\<close> returned.  \<open>val * 10 + digit\<close> is \<open>int\<close> arithmetic.
\<close>

function parse_int_loop :: "string \<Rightarrow> nat \<Rightarrow> int \<Rightarrow> error + (int \<times> nat)" where
  "parse_int_loop sv idx val =
     (if idx < length sv \<and> is_digit (sv ! idx)
      then (if in_int (val * 10) \<and> in_int (val * 10 + digit_val (sv ! idx))
            then parse_int_loop sv (idx + 1) (val * 10 + digit_val (sv ! idx))
            else Inl Int_Overflow)
      else Inr (val, idx))"
  by pat_completeness auto
termination
  by (relation "measure (\<lambda>(sv, idx, val). length sv - idx)") auto

declare parse_int_loop.simps [simp del]

definition parse_int :: "string \<Rightarrow> nat \<Rightarrow> error + (int \<times> nat)" where
  "parse_int sv idx = parse_int_loop sv idx 0"

subsection \<open>\<open>Parser::count_notes\<close>\<close>

text \<open>\<open>while (i < score.size() && score[i] != ')') i++;\<close>\<close>

function skip_to_close :: "string \<Rightarrow> nat \<Rightarrow> nat" where
  "skip_to_close score i =
     (if i < length score \<and> score ! i \<noteq> CHR '')'' then skip_to_close score (i + 1) else i)"
  by pat_completeness auto
termination
  by (relation "measure (\<lambda>(score, i). length score - i)") auto

declare skip_to_close.simps [simp del]

text \<open>The header-skipping loop: every leading parenthesised group is passed over.\<close>

function skip_header :: "string \<Rightarrow> nat \<Rightarrow> nat" where
  "skip_header score i =
     (if i < length score
      then (if score ! i = CHR ''(''
            then skip_header score (skip_to_close score i + 1)
            else i)
      else i)"
  by pat_completeness auto
termination
proof (relation "measure (\<lambda>(score, i). length score - i)")
  show "wf (measure (\<lambda>(score, i). length score - i))" by simp
next
  fix score :: string and i :: nat
  assume len: "i < length score"
  have ge: "j \<le> skip_to_close score j" for j
  proof (induction score j rule: skip_to_close.induct)
    case (1 score j)
    show ?case
    proof (cases "j < length score \<and> score ! j \<noteq> CHR '')''")
      case True
      with 1 have "j + 1 \<le> skip_to_close score (j + 1)" by simp
      moreover from True have "skip_to_close score j = skip_to_close score (j + 1)"
        by (subst skip_to_close.simps) simp
      ultimately show ?thesis by simp
    next
      case False
      then have "skip_to_close score j = j"
        by (subst skip_to_close.simps) auto
      then show ?thesis by simp
    qed
  qed
  from len ge[of i] show "((score, skip_to_close score i + 1), (score, i))
      \<in> measure (\<lambda>(score, i). length score - i)"
    by simp
qed

declare skip_header.simps [simp del]

text \<open>The body scan: one increment for every character in \<open>'0'..'7'\<close>.\<close>

function count_body :: "string \<Rightarrow> nat \<Rightarrow> nat \<Rightarrow> nat" where
  "count_body score i count =
     (if i < length score
      then (if is_note_digit (score ! i)
            then count_body score (i + 1) (count + 1)
            else count_body score (i + 1) count)
      else count)"
  by pat_completeness auto
termination
  by (relation "measure (\<lambda>(score, i, count). length score - i)") auto

declare count_body.simps [simp del]

definition count_notes :: "string \<Rightarrow> nat" where
  "count_notes score = count_body score (skip_header score 0) 0"

subsection \<open>\<open>Parser::parse\<close>\<close>

text \<open>
  The suffix-modifier loop of one note (\<open>while (i < score.size() && loop)\<close> around the
  \<open>switch\<close>).  Its \<open>continue\<close> statements, taken with \<open>loop = false\<close>, leave the loop
  without the \<open>i++\<close> that follows the \<open>switch\<close>.  The locals \<open>oct\<close>, \<open>semi\<close>,
  \<open>dur_mult\<close> and \<open>parsing_duration\<close> are arguments; the result is their final value
  with the cursor.  The counters \<open>oct\<close> and \<open>semi\<close> change by one per character read
  and are unbounded integers here: leaving the range of \<open>int\<close> takes a score of
  \<open>2\<^sup>3\<^sup>1\<close> characters.
\<close>

function modifiers ::
  "string \<Rightarrow> nat \<Rightarrow> int \<Rightarrow> int \<Rightarrow> f32 \<Rightarrow> bool \<Rightarrow> error + (int \<times> int \<times> f32 \<times> nat)" where
  "modifiers score i oct semi dur_mult parsing_duration =
     (if i < length score
      then
        (let m = score ! i in
         if m = CHR ''s'' \<or> m = CHR ''b'' \<or> m = CHR ''`''
         then (if parsing_duration then Inr (oct, semi, dur_mult, i)
               else if m = CHR ''s''
               then modifiers score (i + 1) oct (semi + 1) dur_mult parsing_duration
               else if m = CHR ''b''
               then modifiers score (i + 1) oct (semi - 1) dur_mult parsing_duration
               else modifiers score (i + 1) (oct + 1) semi dur_mult parsing_duration)
         else if m = CHR '',''
         then (case fadd dur_mult 1 of
                 Inl e \<Rightarrow> Inl e
               | Inr d \<Rightarrow> modifiers score (i + 1) oct semi d True)
         else if m = CHR ''-''
         then (case fadd dur_mult (1 / 2) of
                 Inl e \<Rightarrow> Inl e
               | Inr d \<Rightarrow> modifiers score (i + 1) oct semi d True)
         else if m = CHR ''.''
         then (case fadd dur_mult (1 / 4) of
                 Inl e \<Rightarrow> Inl e
               | Inr d \<Rightarrow> modifiers score (i + 1) oct semi d True)
         else if m = CHR ''_''
         then (case fadd dur_mult 2 of
                 Inl e \<Rightarrow> Inl e
               | Inr d \<Rightarrow> modifiers score (i + 1) oct semi d True)
         else Inr (oct, semi, dur_mult, i))
      else Inr (oct, semi, dur_mult, i))"
  by pat_completeness auto
termination
  by (relation "measure (\<lambda>(score, i, oct, semi, dur_mult, pd). length score - i)") auto

declare modifiers.simps [simp del]

text \<open>
  One note, read at a cursor \<open>i\<close> that stands on a note digit or on the backquote.
  Step 1 of the source, the octave-down prefix: the initial \<open>oct\<close> and the cursor.
\<close>

definition prefix_octave :: "string \<Rightarrow> nat \<Rightarrow> int \<times> nat" where
  "prefix_octave score i = (if score ! i = CHR ''`'' then (- 1, i + 1) else (0, i))"

text \<open>Step 2, the note number: \<open>num\<close> and the cursor.\<close>

definition note_number :: "string \<Rightarrow> nat \<Rightarrow> int \<times> nat" where
  "note_number score i =
     (if i < length score \<and> is_note_digit (score ! i)
      then (digit_val (score ! i), i + 1) else (0, i))"

text \<open>
  Steps 1 to 3.  The result is \<open>(num, oct, semi, dur_mult, i)\<close> as they stand when the
  note is emitted.
\<close>

definition parse_note :: "string \<Rightarrow> nat \<Rightarrow> error + (int \<times> int \<times> int \<times> f32 \<times> nat)" where
  "parse_note score i =
     (let (oct, i1) = prefix_octave score i;
          (num, i2) = note_number score i1
      in case modifiers score i2 oct 0 0 False of
           Inl e \<Rightarrow> Inl e
         | Inr (oct', semi, dur_mult, i3) \<Rightarrow> Inr (num, oct', semi, dur_mult, i3))"

text \<open>A store into \<open>std::array<Note, N>\<close> through \<open>operator[]\<close>.\<close>

definition array_set :: "Note list \<Rightarrow> nat \<Rightarrow> Note \<Rightarrow> error + Note list" where
  "array_set a k v = (if k < length a then Inr (a[k := v]) else Inl Index_Out_Of_Range)"

text \<open>The expression \<open>static_cast<uint32_t>(ms_per_beat * dur_mult)\<close>.\<close>

definition duration_ms_of :: "f32 \<Rightarrow> f32 \<Rightarrow> error + nat" where
  "duration_ms_of ms_per_beat dur_mult =
     (case fmul ms_per_beat dur_mult of Inl e \<Rightarrow> Inl e | Inr p \<Rightarrow> f32_to_u32 p)"

text \<open>
  The two assignments that emit a note:
  \<open>notes[note_idx].ratio = calculate_ratio(num, oct, semi);\<close> and
  \<open>notes[note_idx].duration_ms = static_cast<uint32_t>(ms_per_beat * dur_mult);\<close>
\<close>

definition emit :: "Note list \<Rightarrow> nat \<Rightarrow> f32 \<Rightarrow> int \<Rightarrow> int \<Rightarrow> int \<Rightarrow> f32 \<Rightarrow> error + Note list" where
  "emit notes note_idx ms_per_beat num oct semi dur_mult =
     (case calculate_ratio num oct semi of
        Inl e \<Rightarrow> Inl e
      | Inr r \<Rightarrow>
          (case array_set notes note_idx ((notes ! note_idx)\<lparr>ratio := r\<rparr>) of
             Inl e \<Rightarrow> Inl e
           | Inr notes1 \<Rightarrow>
               (case duration_ms_of ms_per_beat dur_mult of
                  Inl e \<Rightarrow> Inl e
                | Inr ms \<Rightarrow>
                    array_set notes1 note_idx ((notes1 ! note_idx)\<lparr>duration_ms := ms\<rparr>))))"

text \<open>The characters of the \<open>switch\<close>, by the group of \<open>case\<close> labels they belong to.\<close>

definition is_pitch_mod :: "char \<Rightarrow> bool" where
  "is_pitch_mod c = (c = CHR ''s'' \<or> c = CHR ''b'' \<or> c = CHR ''`'')"

definition is_duration_mod :: "char \<Rightarrow> bool" where
  "is_duration_mod c = (c = CHR '','' \<or> c = CHR ''-'' \<or> c = CHR ''.'' \<or> c = CHR ''_'')"

definition beats :: "char \<Rightarrow> rat" where
  "beats c = (if c = CHR '','' then 1 else if c = CHR ''-'' then 1 / 2
              else if c = CHR ''.'' then 1 / 4 else if c = CHR ''_'' then 2 else 0)"

definition oct_step :: "char \<Rightarrow> int" where
  "oct_step c = (if c = CHR ''`'' then 1 else 0)"

definition semi_step :: "char \<Rightarrow> int" where
  "semi_step c = (if c = CHR ''s'' then 1 else if c = CHR ''b'' then - 1 else 0)"

lemma modifiers_step:
  "modifiers score i oct semi dur_mult pd =
     (if i < length score
      then (if is_pitch_mod (score ! i)
            then (if pd then Inr (oct, semi, dur_mult, i)
                  else modifiers score (Suc i) (oct + oct_step (score ! i))
                         (semi + semi_step (score ! i)) dur_mult False)
            else if is_duration_mod (score ! i)
            then (case fadd dur_mult (beats (score ! i)) of
                    Inl e \<Rightarrow> Inl e
                  | Inr d \<Rightarrow> modifiers score (Suc i) oct semi d True)
            else Inr (oct, semi, dur_mult, i))
      else Inr (oct, semi, dur_mult, i))"
  by (subst modifiers.simps)
     (simp add: Let_def is_pitch_mod_def is_duration_mod_def beats_def oct_step_def
        semi_step_def split: sum.splits)

lemma modifiers_induct [consumes 0, case_names stop pitch_stop pitch duration other]:
  assumes stop: "\<And>i oct semi dur pd. \<not> i < length score \<Longrightarrow> P i oct semi dur pd"
    and pitch_stop: "\<And>i oct semi dur. i < length score \<Longrightarrow> is_pitch_mod (score ! i)
           \<Longrightarrow> P i oct semi dur True"
    and pitch: "\<And>i oct semi dur. i < length score \<Longrightarrow> is_pitch_mod (score ! i)
           \<Longrightarrow> P (Suc i) (oct + oct_step (score ! i)) (semi + semi_step (score ! i)) dur False
           \<Longrightarrow> P i oct semi dur False"
    and duration: "\<And>i oct semi dur pd. i < length score \<Longrightarrow> \<not> is_pitch_mod (score ! i)
           \<Longrightarrow> is_duration_mod (score ! i)
           \<Longrightarrow> (\<And>d. fadd dur (beats (score ! i)) = Inr d \<Longrightarrow> P (Suc i) oct semi d True)
           \<Longrightarrow> P i oct semi dur pd"
    and other: "\<And>i oct semi dur pd. i < length score \<Longrightarrow> \<not> is_pitch_mod (score ! i)
           \<Longrightarrow> \<not> is_duration_mod (score ! i) \<Longrightarrow> P i oct semi dur pd"
  shows "P i oct semi dur pd"
proof -
  have "\<forall>i oct semi dur pd. length score - i = n \<longrightarrow> P i oct semi dur pd" for n
  proof (induction n rule: less_induct)
    case (less n)
    show ?case
    proof (intro allI impI)
      fix i oct semi dur pd
      assume n: "length score - i = n"
      have IH: "P (Suc i) o' s' d' p'" if "i < length score" for o' s' d' p'
      proof -
        from that n have "length score - Suc i < n" by simp
        from less.IH[OF this] show ?thesis by simp
      qed
      show "P i oct semi dur pd"
      proof (cases "i < length score")
        case False
        then show ?thesis by (rule stop)
      next
        case len: True
        show ?thesis
        proof (cases "is_pitch_mod (score ! i)")
          case pm: True
          show ?thesis
          proof (cases pd)
            case True
            with pitch_stop[OF len pm] show ?thesis by simp
          next
            case False
            with pitch[OF len pm IH[OF len]] show ?thesis by simp
          qed
        next
          case npm: False
          show ?thesis
          proof (cases "is_duration_mod (score ! i)")
            case True
            show ?thesis by (rule duration[OF len npm True]) (rule IH[OF len])
          next
            case False
            show ?thesis by (rule other[OF len npm False])
          qed
        qed
      qed
    qed
  qed
  then show ?thesis by simp
qed

lemma modifiers_cursor_ge:
  "modifiers score i oct semi dur_mult pd = Inr (oct', semi', dur', i') \<Longrightarrow> i \<le> i'"
proof (induction i oct semi dur_mult pd rule: modifiers_induct[of score])
  case (stop i oct semi dur pd)
  then show ?case by (subst (asm) modifiers_step) simp
next
  case (pitch_stop i oct semi dur)
  then show ?case by (subst (asm) modifiers_step) simp
next
  case (pitch i oct semi dur)
  from pitch.prems pitch.hyps
  have "modifiers score (Suc i) (oct + oct_step (score ! i)) (semi + semi_step (score ! i))
          dur False = Inr (oct', semi', dur', i')"
    by (subst (asm) modifiers_step) simp
  then have "Suc i \<le> i'" by (rule pitch.IH)
  then show ?case by simp
next
  case (duration i oct semi dur pd)
  from duration.prems duration.hyps obtain d where
    "fadd dur (beats (score ! i)) = Inr d"
    "modifiers score (Suc i) oct semi d True = Inr (oct', semi', dur', i')"
    by (subst (asm) modifiers_step) (simp split: sum.splits)
  then have "Suc i \<le> i'" by (rule duration.IH)
  then show ?case by simp
next
  case (other i oct semi dur pd)
  then show ?case by (subst (asm) modifiers_step) simp
qed

lemma parse_note_Inr:
  "parse_note score i = Inr (num, oct, semi, dur_mult, i') \<longleftrightarrow>
     num = fst (note_number score (snd (prefix_octave score i))) \<and>
     modifiers score (snd (note_number score (snd (prefix_octave score i))))
       (fst (prefix_octave score i)) 0 0 False = Inr (oct, semi, dur_mult, i')"
  by (auto simp: parse_note_def split: prod.splits sum.splits)

lemma note_number_cursor: "i \<le> snd (note_number score i)"
  by (simp add: note_number_def)

lemma prefix_octave_cursor: "i \<le> snd (prefix_octave score i)"
  by (simp add: prefix_octave_def)

lemma note_start_cursor:
  assumes "i < length score" and "is_note_digit (score ! i) \<or> score ! i = CHR ''`''"
  shows "i < snd (note_number score (snd (prefix_octave score i)))"
proof (cases "score ! i = CHR ''`''")
  case True
  then have "snd (prefix_octave score i) = Suc i" by (simp add: prefix_octave_def)
  with note_number_cursor[of "Suc i" score] show ?thesis by simp
next
  case False
  with assms show ?thesis by (simp add: prefix_octave_def note_number_def)
qed

lemma parse_note_cursor_gt:
  assumes "parse_note score i = Inr (num, oct, semi, dur_mult, i')"
    and "i < length score"
    and "is_note_digit (score ! i) \<or> score ! i = CHR ''`''"
  shows "i < i'"
proof -
  from assms(1) have "snd (note_number score (snd (prefix_octave score i))) \<le> i'"
    unfolding parse_note_Inr by (blast dest: modifiers_cursor_ge)
  with note_start_cursor[OF assms(2,3)] show ?thesis by simp
qed

text \<open>
  The body loop \<open>while (i < score.size() && note_idx < N)\<close>.  The result is the array
  with the final values of \<open>note_idx\<close> and of the cursor \<open>i\<close>.
\<close>

function parse_body ::
  "nat \<Rightarrow> string \<Rightarrow> f32 \<Rightarrow> nat \<Rightarrow> nat \<Rightarrow> Note list \<Rightarrow> error + (Note list \<times> nat \<times> nat)" where
  "parse_body N score ms_per_beat i note_idx notes =
     (if i < length score \<and> note_idx < N
      then (if is_note_digit (score ! i) \<or> score ! i = CHR ''`''
            then (case parse_note score i of
                    Inl e \<Rightarrow> Inl e
                  | Inr (num, oct, semi, dur_mult, i') \<Rightarrow>
                      (case emit notes note_idx ms_per_beat num oct semi dur_mult of
                         Inl e \<Rightarrow> Inl e
                       | Inr notes' \<Rightarrow>
                           parse_body N score ms_per_beat i' (note_idx + 1) notes'))
            else parse_body N score ms_per_beat (i + 1) note_idx notes)
      else Inr (notes, note_idx, i))"
  by pat_completeness auto
termination
proof (relation "measure (\<lambda>(N, score, ms_per_beat, i, note_idx, notes). length score - i)")
  show "wf (measure (\<lambda>(N, score, ms_per_beat, i, note_idx, notes). length score - i))"
    by simp
next
  fix N :: nat and score :: string and ms_per_beat :: f32 and i note_idx :: nat
    and ns :: "Note list" and x2 :: "int \<times> int \<times> int \<times> f32 \<times> nat"
    and num oct semi :: int and dur_mult :: f32 and i' :: nat and y :: "int \<times> int \<times> f32 \<times> nat"
    and ya :: "int \<times> f32 \<times> nat" and yb :: "f32 \<times> nat" and ns' :: "Note list"
  assume "i < length score \<and> note_idx < N"
    and "is_note_digit (score ! i) \<or> score ! i = CHR ''`''"
    and "parse_note score i = Inr x2"
    and "(num, y) = x2" and "(oct, ya) = y" and "(semi, yb) = ya" and "(dur_mult, i') = yb"
  then have "i < i'" and "i < length score"
    using parse_note_cursor_gt[of score i num oct semi dur_mult i'] by auto
  then show "((N, score, ms_per_beat, i', note_idx + 1, ns'), (N, score, ms_per_beat, i, note_idx, ns))
      \<in> measure (\<lambda>(N, score, ms_per_beat, i, note_idx, notes). length score - i)"
    by simp
next
  fix N :: nat and score :: string and ms_per_beat :: f32 and i note_idx :: nat
    and ns :: "Note list"
  assume "i < length score \<and> note_idx < N"
  then show "((N, score, ms_per_beat, i + 1, note_idx, ns), (N, score, ms_per_beat, i, note_idx, ns))
      \<in> measure (\<lambda>(N, score, ms_per_beat, i, note_idx, notes). length score - i)"
    by auto
qed

declare parse_body.simps [simp del]

text \<open>
  The header of \<open>parse\<close>: \<open>bpm\<close> and the cursor after it.  Without a leading
  parenthesis \<open>bpm\<close> keeps its initial value \<open>120.0f\<close>.
\<close>

definition parse_header :: "string \<Rightarrow> error + (f32 \<times> nat)" where
  "parse_header score =
     (if 0 < length score \<and> score ! 0 = CHR ''(''
      then (case parse_int score 1 of
              Inl e \<Rightarrow> Inl e
            | Inr (v, i) \<Rightarrow>
                Inr (int_to_f32 v,
                     if i < length score \<and> score ! i = CHR '')'' then i + 1 else i))
      else Inr (120, 0))"

text \<open>\<open>std::array<Note, N> notes{};\<close> is value-initialised.\<close>

definition empty_notes :: "nat \<Rightarrow> Note list" where
  "empty_notes N = replicate N \<lparr>ratio = 0, duration_ms = 0\<rparr>"

text \<open>
  \<open>parse<N>\<close> with its locals at the \<open>return\<close>: the array, \<open>note_idx\<close> and \<open>i\<close>.
  \<open>ms_per_beat = 60000.0f / bpm\<close> is computed before the body loop.
\<close>

definition parse_state :: "nat \<Rightarrow> string \<Rightarrow> error + (Note list \<times> nat \<times> nat)" where
  "parse_state N score =
     (case parse_header score of
        Inl e \<Rightarrow> Inl e
      | Inr (bpm, i) \<Rightarrow>
          (case fdiv 60000 bpm of
             Inl e \<Rightarrow> Inl e
           | Inr ms_per_beat \<Rightarrow> parse_body N score ms_per_beat i 0 (empty_notes N)))"

definition parse :: "nat \<Rightarrow> string \<Rightarrow> error + Note list" where
  "parse N score =
     (case parse_state N score of Inl e \<Rightarrow> Inl e | Inr (notes, note_idx, i) \<Rightarrow> Inr notes)"

text \<open>The literal operator \<open>_ems\<close>: \<open>N = count_notes(sv)\<close>, then \<open>parse<N>(sv)\<close>.\<close>

definition ems :: "string \<Rightarrow> error + Note list" where
  "ems sv = parse (count_notes sv) sv"

subsection \<open>Auxiliary notions used in the statements\<close>

definition is_note_start :: "char \<Rightarrow> bool" where
  "is_note_start c = (is_note_digit c \<or> c = CHR ''`'')"

definition note_digits :: "string \<Rightarrow> nat \<Rightarrow> nat" where
  "note_digits score i = length (filter is_note_digit (drop i score))"

text \<open>The characters of a score from cursor \<open>i\<close> up to, not including, cursor \<open>j\<close>.\<close>

definition slice :: "string \<Rightarrow> nat \<Rightarrow> nat \<Rightarrow> string" where
  "slice score i j = take (j - i) (drop i score)"

text \<open>
  The single-precision sum \<open>dur_mult += ...\<close> taken over a run of duration modifiers,
  left to right.
\<close>

fun accumulate :: "f32 \<Rightarrow> string \<Rightarrow> error + f32" where
  "accumulate d [] = Inr d"
| "accumulate d (c # cs) =
     (case fadd d (beats c) of Inl e \<Rightarrow> Inl e | Inr d' \<Rightarrow> accumulate d' cs)"

text \<open>
  The loop \<open>res *= base\<close> run \<open>n\<close> times from \<open>1.0f\<close>: each product is rounded to
  single precision.
\<close>

fun mult_chain :: "f32 \<Rightarrow> nat \<Rightarrow> error + f32" where
  "mult_chain base 0 = Inr 1"
| "mult_chain base (Suc n) =
     (case mult_chain base n of Inl e \<Rightarrow> Inl e | Inr r \<Rightarrow> fmul r base)"

text \<open>
  The cursor at which the body loop reads its next note when it stands at cursor \<open>i\<close>:
  the first note start at or after \<open>i\<close> (the length of the score when there is none).
\<close>

definition next_start :: "string \<Rightarrow> nat \<Rightarrow> nat" where
  "next_start score i = i + length (takeWhile (\<lambda>c. \<not> is_note_start c) (drop i score))"

text \<open>
  The cursor at which the body loop, started at cursor \<open>i\<close>, reads its note number \<open>n\<close>
  (counted from 0): the loop skips to a note start, reads one note there, and goes on
  from the cursor where that note ended.
\<close>

fun note_cursor :: "string \<Rightarrow> nat \<Rightarrow> nat \<Rightarrow> error + nat" where
  "note_cursor score i 0 = Inr (next_start score i)"
| "note_cursor score i (Suc n) =
     (if next_start score i < length score
      then (case parse_note score (next_start score i) of
              Inl e \<Rightarrow> Inl e
            | Inr (num, oct, semi, dur_mult, i') \<Rightarrow> note_cursor score i' n)
      else Inr (next_start score i))"

section \<open>Evaluating single-precision operations\<close>

lemma floor_rat_numeral [simp]:
  "\<lfloor>numeral a / numeral b :: rat\<rfloor> = numeral a div numeral b"
  using floor_divide_of_int_eq[of "numeral a" "numeral b", where ?'a = rat] by simp

lemma ceiling_rat_numeral [simp]:
  "\<lceil>numeral a / numeral b :: rat\<rceil> = - ((- numeral a) div numeral b)"
  using floor_divide_of_int_eq[of "- numeral a" "numeral b", where ?'a = rat]
  by (simp add: ceiling_def)

lemmas f32_eval =
  fadd_def fmul_def fdiv_def to_f32_def round_f32_def ilog2_def bit_length.simps pow2_def
  round_half_even_def FLT_MAX_def Let_def f32_to_u32_def int_to_f32_def

lemma replicate_numeral: "replicate (numeral k) x = x # replicate (pred_numeral k) x"
  by (simp add: numeral_eq_Suc)

section \<open>The body loop\<close>

lemma parse_body_stop:
  "\<not> (i < length score \<and> note_idx < N) \<Longrightarrow>
     parse_body N score ms_per_beat i note_idx ns = Inr (ns, note_idx, i)"
  by (subst parse_body.simps) auto

lemma parse_body_skip:
  "i < length score \<Longrightarrow> note_idx < N \<Longrightarrow> \<not> is_note_start (score ! i) \<Longrightarrow>
     parse_body N score ms_per_beat i note_idx ns =
     parse_body N score ms_per_beat (Suc i) note_idx ns"
  by (subst parse_body.simps) (simp add: is_note_start_def)

lemma parse_body_note:
  "i < length score \<Longrightarrow> note_idx < N \<Longrightarrow> is_note_start (score ! i) \<Longrightarrow>
     parse_body N score ms_per_beat i note_idx ns =
     (case parse_note score i of
        Inl e \<Rightarrow> Inl e
      | Inr (num, oct, semi, dur_mult, i') \<Rightarrow>
          (case emit ns note_idx ms_per_beat num oct semi dur_mult of
             Inl e \<Rightarrow> Inl e
           | Inr ns' \<Rightarrow> parse_body N score ms_per_beat i' (note_idx + 1) ns'))"
  by (subst parse_body.simps) (simp add: is_note_start_def)

lemma parse_body_induct [consumes 0, case_names halt emit_note skip_char]:
  assumes halt: "\<And>i idx ns. \<not> (i < length score \<and> idx < N) \<Longrightarrow> P i idx ns"
    and emitn: "\<And>i idx ns. i < length score \<Longrightarrow> idx < N \<Longrightarrow> is_note_start (score ! i)
           \<Longrightarrow> (\<And>num oct semi dur i' ns'.
                  parse_note score i = Inr (num, oct, semi, dur, i')
                  \<Longrightarrow> emit ns idx ms_per_beat num oct semi dur = Inr ns'
                  \<Longrightarrow> i < i' \<Longrightarrow> P i' (Suc idx) ns')
           \<Longrightarrow> P i idx ns"
    and skp: "\<And>i idx ns. i < length score \<Longrightarrow> idx < N \<Longrightarrow> \<not> is_note_start (score ! i)
           \<Longrightarrow> P (Suc i) idx ns \<Longrightarrow> P i idx ns"
  shows "P i idx ns"
proof -
  have "\<forall>i idx ns. length score - i = n \<longrightarrow> P i idx ns" for n
  proof (induction n rule: less_induct)
    case (less n)
    show ?case
    proof (intro allI impI)
      fix i idx ns
      assume n: "length score - i = n"
      show "P i idx ns"
      proof (cases "i < length score \<and> idx < N")
        case False
        then show ?thesis by (rule halt)
      next
        case True
        then have len: "i < length score" and cap: "idx < N" by simp_all
        show ?thesis
        proof (cases "is_note_start (score ! i)")
          case ns: True
          show ?thesis
          proof (rule emitn[OF len cap ns])
            fix num oct semi dur i' ns'
            assume "parse_note score i = Inr (num, oct, semi, dur, i')" and "i < i'"
            with len n have "length score - i' < n" by simp
            from less.IH[OF this] show "P i' (Suc idx) ns'" by simp
          qed
        next
          case nns: False
          from len n have "length score - Suc i < n" by simp
          from less.IH[OF this] have "P (Suc i) idx ns" by simp
          then show ?thesis by (rule skp[OF len cap nns])
        qed
      qed
    qed
  qed
  then show ?thesis by simp
qed

text \<open>Unfolding a successful note step.\<close>

lemma parse_body_note_Inr:
  assumes "i < length score" "note_idx < N" "is_note_start (score ! i)"
    and "parse_body N score ms_per_beat i note_idx ns = Inr res"
  obtains num oct semi dur i' ns' where
    "parse_note score i = Inr (num, oct, semi, dur, i')"
    "emit ns note_idx ms_per_beat num oct semi dur = Inr ns'"
    "i < i'"
    "parse_body N score ms_per_beat i' (Suc note_idx) ns' = Inr res"
proof -
  from assms(4) obtain num oct semi dur i' where
    pn: "parse_note score i = Inr (num, oct, semi, dur, i')"
    unfolding parse_body_note[OF assms(1-3)]
    by (cases "parse_note score i") auto
  with assms(4) obtain ns' where
    em: "emit ns note_idx ms_per_beat num oct semi dur = Inr ns'"
    unfolding parse_body_note[OF assms(1-3)]
    by (cases "emit ns note_idx ms_per_beat num oct semi dur") auto
  from pn em assms(4) have
    "parse_body N score ms_per_beat i' (Suc note_idx) ns' = Inr res"
    unfolding parse_body_note[OF assms(1-3)] by simp
  moreover from pn assms(1,3) have "i < i'"
    by (auto intro: parse_note_cursor_gt simp: is_note_start_def)
  ultimately show ?thesis using pn em that by blast
qed


lemma emit_Inr_iff:
  assumes "idx < length ns"
  shows "emit ns idx ms_per_beat num oct semi dur = Inr ns' \<longleftrightarrow>
     (\<exists>r ms. calculate_ratio num oct semi = Inr r \<and> duration_ms_of ms_per_beat dur = Inr ms
        \<and> ns' = ns[idx := \<lparr>ratio = r, duration_ms = ms\<rparr>])"
proof -
  have upd: "(x\<lparr>ratio := r\<rparr>)\<lparr>duration_ms := ms\<rparr> = \<lparr>ratio = r, duration_ms = ms\<rparr>"
    for x :: Note and r ms
    by (cases x) simp
  from assms show ?thesis
    by (auto simp: emit_def array_set_def upd split: sum.splits)
qed

lemma emit_length: "emit ns idx ms_per_beat num oct semi dur = Inr ns' \<Longrightarrow> length ns' = length ns"
  by (auto simp: emit_def array_set_def split: sum.splits if_splits)

lemma emit_take_below:
  "emit ns idx ms_per_beat num oct semi dur = Inr ns' \<Longrightarrow> take idx ns' = take idx ns"
  by (auto simp: emit_def array_set_def split: sum.splits if_splits)

text \<open>Shape of a successful run of the body loop.\<close>

lemma parse_body_shape:
  "parse_body N score ms_per_beat i idx ns = Inr (ns', k, j) \<Longrightarrow>
     length ns' = length ns \<and> idx \<le> k \<and> (idx \<le> N \<longrightarrow> k \<le> N) \<and> i \<le> j
     \<and> (k < N \<longrightarrow> length score \<le> j) \<and> take idx ns' = take idx ns"
proof (induction i idx ns rule: parse_body_induct[of score N _ ms_per_beat])
  case (halt i idx ns)
  then show ?case by (auto simp: parse_body_stop)
next
  case (emit_note i idx ns)
  from emit_note.prems emit_note.hyps obtain num oct semi dur i' ns1 where
    pn: "parse_note score i = Inr (num, oct, semi, dur, i')"
    and em: "emit ns idx ms_per_beat num oct semi dur = Inr ns1"
    and lt: "i < i'"
    and rec: "parse_body N score ms_per_beat i' (Suc idx) ns1 = Inr (ns', k, j)"
    by (auto elim: parse_body_note_Inr)
  from emit_note.IH[OF pn em lt rec]
  have "length ns' = length ns1" "Suc idx \<le> k" "Suc idx \<le> N \<longrightarrow> k \<le> N" "i' \<le> j"
    "k < N \<longrightarrow> length score \<le> j" "take (Suc idx) ns' = take (Suc idx) ns1"
    by simp_all
  moreover from em have "length ns1 = length ns" by (rule emit_length)
  moreover from em have "take idx ns1 = take idx ns" by (rule emit_take_below)
  moreover from \<open>take (Suc idx) ns' = take (Suc idx) ns1\<close>
  have "take idx ns' = take idx ns1"
    by (metis min.absorb1 le_SucI order_refl take_take)
  ultimately show ?case using lt emit_note.hyps by auto
next
  case (skip_char i idx ns)
  from skip_char.prems skip_char.hyps
  have "parse_body N score ms_per_beat (Suc i) idx ns = Inr (ns', k, j)"
    by (simp add: parse_body_skip)
  from skip_char.IH[OF this] show ?case by auto
qed

lemma emit_eval:
  "idx < length ns \<Longrightarrow> calculate_ratio num oct semi = Inr r \<Longrightarrow>
     duration_ms_of ms_per_beat dur = Inr ms \<Longrightarrow>
     emit ns idx ms_per_beat num oct semi dur = Inr (ns[idx := \<lparr>ratio = r, duration_ms = ms\<rparr>])"
  by (simp add: emit_Inr_iff)

lemma note_digits_beyond: "length score \<le> i \<Longrightarrow> note_digits score i = 0"
  by (simp add: note_digits_def)

lemma note_digits_step:
  "i < length score \<Longrightarrow>
     note_digits score i = (if is_note_digit (score ! i) then 1 else 0) + note_digits score (Suc i)"
  by (simp add: note_digits_def Cons_nth_drop_Suc[symmetric])



lemma count_body_eq: "count_body score i c = c + note_digits score i"
proof (induction score i c rule: count_body.induct)
  case (1 score i count)
  show ?case
  proof (cases "i < length score")
    case False
    then show ?thesis
      by (subst count_body.simps) (simp add: note_digits_beyond)
  next
    case True
    with 1 show ?thesis
      by (subst count_body.simps) (simp add: note_digits_step)
  qed
qed

lemma count_notes_eq: "count_notes score = note_digits score (skip_header score 0)"
  by (simp add: count_notes_def count_body_eq)


lemma duration_mod_not_digit: "is_duration_mod c \<Longrightarrow> \<not> is_note_digit c"
  by (auto simp: is_duration_mod_def is_note_digit_def less_eq_char_def)









subsection \<open>Which errors can arise where\<close>




















lemma slice_empty [simp]: "slice score i i = []"
  by (simp add: slice_def)

lemma slice_step:
  "i < length score \<Longrightarrow> i < j \<Longrightarrow> slice score i j = score ! i # slice score (Suc i) j"
proof -
  assume a: "i < length score" "i < j"
  then obtain n where n: "j - i = Suc n" and n': "j - Suc i = n"
    by (cases "j - i") auto
  from a(1) have "drop i score = score ! i # drop (Suc i) score"
    by (simp add: Cons_nth_drop_Suc)
  with n n' show ?thesis by (simp add: slice_def)
qed

lemma pitch_not_duration: "is_pitch_mod c \<Longrightarrow> \<not> is_duration_mod c"
  by (auto simp: is_pitch_mod_def is_duration_mod_def)

text \<open>
  What a completed modifier run has read: the characters between the two cursors are
  modifiers, and \<open>dur_mult\<close> has accumulated the beats of the duration modifiers
  among them, one single-precision addition each.
\<close>

lemma modifiers_run:
  "modifiers score i oct semi dur pd = Inr (oct', semi', dur', i') \<Longrightarrow>
     i \<le> i'
     \<and> accumulate dur (filter is_duration_mod (slice score i i')) = Inr dur'
     \<and> (\<forall>c \<in> set (slice score i i'). is_pitch_mod c \<or> is_duration_mod c)"
proof (induction i oct semi dur pd rule: modifiers_induct[of score])
  case (stop i oct semi dur pd)
  then show ?case by (subst (asm) modifiers_step) simp
next
  case (pitch_stop i oct semi dur)
  then show ?case by (subst (asm) modifiers_step) simp
next
  case (pitch i oct semi dur)
  from pitch.prems pitch.hyps
  have "modifiers score (Suc i) (oct + oct_step (score ! i)) (semi + semi_step (score ! i))
          dur False = Inr (oct', semi', dur', i')"
    by (subst (asm) modifiers_step) simp
  from pitch.IH[OF this] have le: "Suc i \<le> i'"
    and acc: "accumulate dur (filter is_duration_mod (slice score (Suc i) i')) = Inr dur'"
    and cls: "\<forall>c \<in> set (slice score (Suc i) i'). is_pitch_mod c \<or> is_duration_mod c"
    by simp_all
  from le pitch.hyps have "slice score i i' = score ! i # slice score (Suc i) i'"
    by (simp add: slice_step)
  with le acc cls pitch.hyps show ?case by (simp add: pitch_not_duration)
next
  case (duration i oct semi dur pd)
  from duration.prems duration.hyps obtain d where
    d: "fadd dur (beats (score ! i)) = Inr d"
    and rec: "modifiers score (Suc i) oct semi d True = Inr (oct', semi', dur', i')"
    by (subst (asm) modifiers_step) (simp split: sum.splits)
  from duration.IH[OF d rec] have le: "Suc i \<le> i'"
    and acc: "accumulate d (filter is_duration_mod (slice score (Suc i) i')) = Inr dur'"
    and cls: "\<forall>c \<in> set (slice score (Suc i) i'). is_pitch_mod c \<or> is_duration_mod c"
    by simp_all
  from le duration.hyps have "slice score i i' = score ! i # slice score (Suc i) i'"
    by (simp add: slice_step)
  with le acc cls d duration.hyps show ?case by simp
next
  case (other i oct semi dur pd)
  then show ?case by (subst (asm) modifiers_step) simp
qed

lemma slice_append:
  "i \<le> m \<Longrightarrow> m \<le> j \<Longrightarrow> slice score i j = slice score i m @ slice score m j"
proof -
  assume a: "i \<le> m" "m \<le> j"
  then have "j - i = (m - i) + (j - m)" by simp
  then have "take (j - i) (drop i score)
      = take (m - i) (drop i score) @ take (j - m) (drop (m - i) (drop i score))"
    by (simp only: take_add)
  with a show ?thesis by (simp add: slice_def)
qed

lemma note_head_no_duration:
  assumes "i < length score" and "is_note_start (score ! i)"
  shows "filter is_duration_mod
           (slice score i (snd (note_number score (snd (prefix_octave score i))))) = []"
proof -
  have nd: "\<not> is_duration_mod c" if "is_note_digit c" for c
    using that duration_mod_not_digit by blast
  have bq: "\<not> is_duration_mod CHR ''`''" by (simp add: is_duration_mod_def)
  show ?thesis
  proof (cases "score ! i = CHR ''`''")
    case True
    then have p: "snd (prefix_octave score i) = Suc i" by (simp add: prefix_octave_def)
    show ?thesis
    proof (cases "Suc i < length score \<and> is_note_digit (score ! Suc i)")
      case d: True
      then have "snd (note_number score (Suc i)) = Suc (Suc i)" by (simp add: note_number_def)
      with p assms(1) d True bq nd show ?thesis by (simp add: slice_step)
    next
      case False
      then have "snd (note_number score (Suc i)) = Suc i" by (auto simp: note_number_def)
      with p assms(1) True bq show ?thesis by (simp add: slice_step)
    qed
  next
    case False
    with assms(2) have d: "is_note_digit (score ! i)" by (simp add: is_note_start_def)
    from False have "snd (prefix_octave score i) = i" by (simp add: prefix_octave_def)
    moreover from d assms(1) have "snd (note_number score i) = Suc i"
      by (simp add: note_number_def)
    ultimately show ?thesis using assms(1) d nd by (simp add: slice_step)
  qed
qed

lemma parse_note_run:
  assumes "parse_note score i = Inr (num, oct, semi, dur, i')"
    and "i < length score" and "is_note_start (score ! i)"
  shows "accumulate 0 (filter is_duration_mod (slice score i i')) = Inr dur"
proof -
  let ?i2 = "snd (note_number score (snd (prefix_octave score i)))"
  from assms(1) have m: "modifiers score ?i2 (fst (prefix_octave score i)) 0 0 False
      = Inr (oct, semi, dur, i')"
    unfolding parse_note_Inr by simp
  from modifiers_run[OF m] have le: "?i2 \<le> i'"
    and acc: "accumulate 0 (filter is_duration_mod (slice score ?i2 i')) = Inr dur"
    by simp_all
  from note_start_cursor[of i score] assms(2,3) have "i \<le> ?i2"
    by (simp add: is_note_start_def)
  from slice_append[OF this le] note_head_no_duration[OF assms(2,3)] acc
  show ?thesis by simp
qed

subsection \<open>Sums of quarter beats are exact in single precision\<close>

lemma bit_length_bounds:
  "0 < n \<Longrightarrow> 1 \<le> bit_length n \<and> 2 ^ nat (bit_length n - 1) \<le> n \<and> n < 2 ^ nat (bit_length n)"
proof (induction n rule: bit_length.induct)
  case (1 n)
  from "1.prems" have eq: "bit_length n = 1 + bit_length (n div 2)"
    by (subst bit_length.simps) simp
  show ?case
  proof (cases "n div 2 = 0")
    case True
    with "1.prems" have "n = 1" by presburger
    moreover have "bit_length (0::int) = 0" by (subst bit_length.simps) simp
    ultimately show ?thesis using eq by simp
  next
    case False
    with "1.prems" have pos: "0 < n div 2" by presburger
    from "1.prems" have "\<not> n \<le> 0" by simp
    from "1.IH"[OF this pos] have b: "1 \<le> bit_length (n div 2)"
      and lo: "2 ^ nat (bit_length (n div 2) - 1) \<le> n div 2"
      and hi: "n div 2 < 2 ^ nat (bit_length (n div 2))"
      by simp_all
    let ?b = "bit_length (n div 2)"
    from b have n1: "nat (1 + ?b - 1) = Suc (nat (?b - 1))" and n2: "nat (1 + ?b) = Suc (nat ?b)"
      by simp_all
    have "2 * (n div 2) \<le> n" by presburger
    with lo have "2 ^ nat (1 + ?b - 1) \<le> n" unfolding n1 by simp
    moreover have "n \<le> 2 * (n div 2) + 1" by presburger
    with hi have "n < 2 ^ nat (1 + ?b)" unfolding n2 by simp
    ultimately show ?thesis using b eq by simp
  qed
qed

lemma round_half_even_of_int [simp]: "round_half_even (of_int m) = m"
  by (simp add: round_half_even_def)

lemma round_f32_quarters:
  assumes "0 \<le> k" and "k \<le> 2 ^ 24"
  shows "round_f32 (of_int k / 4) = of_int k / 4"
proof -
  consider "k = 0" | "k = 1" | "k = 2" | "k = 3" | "4 \<le> k" using assms(1) by linarith
  then show ?thesis
  proof cases
    case 5
    let ?x = "of_int k / 4 :: rat"
    from 5 have x1: "1 \<le> ?x" by simp
    then have fl: "0 < \<lfloor>?x\<rfloor>" by linarith
    let ?b = "bit_length \<lfloor>?x\<rfloor>"
    from bit_length_bounds[OF fl] have b1: "1 \<le> ?b"
      and lo: "2 ^ nat (?b - 1) \<le> \<lfloor>?x\<rfloor>" by simp_all
    from assms(2) have xle: "?x \<le> 2 ^ 22" by simp
    then have "\<lfloor>?x\<rfloor> \<le> 2 ^ 22" by (simp add: floor_le_iff)
    with lo have h: "(2::int) ^ nat (?b - 1) \<le> 2 ^ 22" by linarith
    have "nat (?b - 1) \<le> 22" by (rule power_le_imp_le_exp[OF _ h]) simp
    with b1 have ble: "?b - 1 \<le> 22" by linarith
    define e where "e = ?b - 1"
    from b1 ble have e: "0 \<le> e" "e \<le> 22" by (simp_all add: e_def)
    from x1 have il: "ilog2 \<bar>?x\<bar> = e" by (simp add: ilog2_def e_def)
    from e have mx: "max e (- 126) = e" by simp
    from e have q: "pow2 (e - 23) = 1 / 2 ^ nat (23 - e)" by (simp add: pow2_def)
    have "\<exists>m. ?x / pow2 (e - 23) = of_int m"
    proof (cases "e \<le> 21")
      case True
      then have "nat (23 - e) = 2 + nat (21 - e)" by simp
      then have "?x / pow2 (e - 23) = of_int (k * 2 ^ nat (21 - e))"
        unfolding q by (simp add: power_add)
      then show ?thesis by blast
    next
      case False
      with e have e22: "e = 22" by simp
      from lo have "of_int (2 ^ nat (?b - 1)) \<le> ?x" by (simp add: le_floor_iff)
      with e22 have "2 ^ 22 \<le> ?x" by (simp add: e_def)
      with xle have "?x = 2 ^ 22" by simp
      with e22 have "?x / pow2 (e - 23) = of_int (2 ^ 23)" by (simp add: pow2_def)
      then show ?thesis by blast
    qed
    then obtain m where m: "?x / pow2 (e - 23) = of_int m" by blast
    from q have qpos: "pow2 (e - 23) \<noteq> 0" by simp
    from x1 have "?x \<noteq> 0" by simp
    then have "round_f32 ?x = of_int (round_half_even (?x / pow2 (e - 23))) * pow2 (e - 23)"
      by (simp only: round_f32_def il mx Let_def if_False)
    also have "\<dots> = ?x / pow2 (e - 23) * pow2 (e - 23)"
      by (simp only: m round_half_even_of_int)
    also from qpos have "\<dots> = ?x" by simp
    finally show ?thesis .
  qed (simp_all add: f32_eval)
qed

lemma to_f32_quarters:
  assumes "0 \<le> k" and "k \<le> 2 ^ 24"
  shows "to_f32 (of_int k / 4) = Inr (of_int k / 4)"
proof -
  from assms have "\<bar>of_int k / 4 :: rat\<bar> \<le> 2 ^ 22" by simp
  then have le: "\<bar>of_int k / 4 :: rat\<bar> \<le> FLT_MAX" by (simp add: FLT_MAX_def)
  have "to_f32 (of_int k / 4)
      = (if \<bar>round_f32 (of_int k / 4)\<bar> \<le> FLT_MAX then Inr (round_f32 (of_int k / 4))
         else Inl Float_Overflow)"
    by (simp only: to_f32_def Let_def)
  also have "\<dots> = Inr (of_int k / 4)"
    by (simp only: round_f32_quarters[OF assms] le if_True)
  finally show ?thesis .
qed

lemma beats_quarters:
  "is_duration_mod c \<Longrightarrow> \<exists>b::int. 1 \<le> b \<and> beats c = of_int b / 4"
proof -
  assume "is_duration_mod c"
  then consider "c = CHR '',''" | "c = CHR ''-''" | "c = CHR ''.''" | "c = CHR ''_''"
    by (auto simp: is_duration_mod_def)
  then show ?thesis
  proof cases
    case 1 then have "beats c = of_int 4 / 4" by (simp add: beats_def) then show ?thesis by (intro exI[of _ 4]) simp
  next
    case 2 then have "beats c = of_int 2 / 4" by (simp add: beats_def) then show ?thesis by (intro exI[of _ 2]) simp
  next
    case 3 then have "beats c = of_int 1 / 4" by (simp add: beats_def) then show ?thesis by (intro exI[of _ 1]) simp
  next
    case 4 then have "beats c = of_int 8 / 4" by (simp add: beats_def) then show ?thesis by (intro exI[of _ 8]) simp
  qed
qed

lemma accumulate_exact:
  assumes "\<forall>c \<in> set cs. is_duration_mod c" and "0 \<le> k"
    and "of_int k / 4 + sum_list (map beats cs) \<le> 2 ^ 22"
  shows "accumulate (of_int k / 4) cs = Inr (of_int k / 4 + sum_list (map beats cs))"
  using assms
proof (induction cs arbitrary: k)
  case Nil
  then show ?case by simp
next
  case (Cons c cs)
  from Cons.prems(1) obtain b :: int where b: "1 \<le> b" "beats c = of_int b / 4"
    using beats_quarters[of c] by auto
  have nonneg: "0 \<le> sum_list (map beats cs)"
  proof (rule sum_list_nonneg)
    fix x assume "x \<in> set (map beats cs)"
    then obtain c' where "c' \<in> set cs" "x = beats c'" by auto
    with Cons.prems(1) beats_quarters[of c'] show "0 \<le> x" by auto
  qed
  have sum: "of_int k / 4 + beats c = (of_int (k + b) / 4 :: rat)" by (simp add: b add_divide_distrib)
  from Cons.prems(3) nonneg have "(of_int (k + b) / 4 :: rat) \<le> 2 ^ 22"
    unfolding sum[symmetric] by simp
  then have kb: "k + b \<le> 2 ^ 24" by simp
  from Cons.prems(2) b have kb0: "0 \<le> k + b" by simp
  from to_f32_quarters[OF kb0 kb]
  have step: "fadd (of_int k / 4) (beats c) = Inr (of_int (k + b) / 4)"
    by (simp add: fadd_def sum)
  from Cons.prems(1) have cs: "\<forall>c \<in> set cs. is_duration_mod c" by simp
  from Cons.prems(3) have "of_int (k + b) / 4 + sum_list (map beats cs) \<le> 2 ^ 22"
    unfolding sum[symmetric] by (simp add: add.assoc)
  from Cons.IH[OF cs kb0 this]
  have "accumulate (of_int (k + b) / 4) cs
      = Inr (of_int k / 4 + sum_list (map beats (c # cs)))"
    by (simp only: sum[symmetric] list.map sum_list.Cons add.assoc)
  with step show ?case by (simp only: accumulate.simps sum.case)
qed

lemma accumulate_exact_0:
  assumes "\<forall>c \<in> set cs. is_duration_mod c" and "sum_list (map beats cs) \<le> 2 ^ 22"
  shows "accumulate 0 cs = Inr (sum_list (map beats cs))"
  using accumulate_exact[of cs 0] assms by simp

lemma f32_to_u32_floor: "f32_to_u32 p = Inr ms \<Longrightarrow> ms = nat \<lfloor>p\<rfloor>"
proof (cases "0 \<le> p")
  case True
  assume "f32_to_u32 p = Inr ms"
  with True show ?thesis by (auto simp: f32_to_u32_def Let_def split: if_splits)
next
  case False
  assume a: "f32_to_u32 p = Inr ms"
  from False have neg: "\<lfloor>p\<rfloor> < 0" by linarith
  from False have "0 \<le> \<lfloor>- p\<rfloor>" by linarith
  with a False have "ms = 0" by (auto simp: f32_to_u32_def Let_def split: if_splits)
  with neg show ?thesis by simp
qed

lemma duration_ms_of_zero: "duration_ms_of m 0 = Inr 0"
  by (simp add: duration_ms_of_def fmul_def to_f32_def round_f32_def FLT_MAX_def f32_to_u32_def)

lemma parse_of_state: "parse_state N score = Inr (ns, k, j) \<Longrightarrow> parse N score = Inr ns"
  by (simp add: parse_def)

lemma modifiers_oct_shift:
  "modifiers score i (oct + d) semi dur pd =
     (case modifiers score i oct semi dur pd of
        Inl e \<Rightarrow> Inl e
      | Inr (oct', semi', dur', i') \<Rightarrow> Inr (oct' + d, semi', dur', i'))"
proof (induction i oct semi dur pd rule: modifiers_induct[of score])
  case (stop i oct semi dur pd)
  then show ?case by (subst (1 2) modifiers_step) simp
next
  case (pitch_stop i oct semi dur)
  then show ?case by (subst (1 2) modifiers_step) simp
next
  case (pitch i oct semi dur)
  have "oct + d + oct_step (score ! i) = oct + oct_step (score ! i) + d" by simp
  with pitch show ?case by (subst (1 2) modifiers_step) (simp only: if_True if_False)
next
  case (duration i oct semi dur pd)
  then show ?case
    by (subst (1 2) modifiers_step) (simp split: sum.splits)
next
  case (other i oct semi dur pd)
  then show ?case by (subst (1 2) modifiers_step) simp
qed

lemma parse_note_prefixed:
  assumes "score ! i = CHR ''`''" and "Suc i < length score" and "is_note_digit (score ! Suc i)"
    and "parse_note score i = Inr (num, oct, semi, dur, i')"
  shows "parse_note score (Suc i) = Inr (num, oct + 1, semi, dur, i')"
proof -
  from assms(3) have nb: "score ! Suc i \<noteq> CHR ''`''"
    by (auto simp: is_note_digit_def less_eq_char_def)
  from assms(1-3) have a: "prefix_octave score i = (- 1, Suc i)"
    "note_number score (Suc i) = (digit_val (score ! Suc i), Suc (Suc i))"
    by (simp_all add: prefix_octave_def note_number_def)
  from nb have b: "prefix_octave score (Suc i) = (0, Suc i)" by (simp add: prefix_octave_def)
  from assms(4) have num: "num = digit_val (score ! Suc i)"
    and m: "modifiers score (Suc (Suc i)) (- 1) 0 0 False = Inr (oct, semi, dur, i')"
    unfolding parse_note_Inr by (simp_all add: a)
  from modifiers_oct_shift[of score "Suc (Suc i)" "- 1" 1 0 0 False] m
  have "modifiers score (Suc (Suc i)) 0 0 0 False = Inr (oct + 1, semi, dur, i')" by simp
  with num show ?thesis unfolding parse_note_Inr by (simp add: a b)
qed

text \<open>A completed modifier run does not depend on the text from its final cursor on.\<close>

lemma modifiers_take:
  "modifiers score i oct semi dur pd = Inr (oct', semi', dur', i') \<Longrightarrow>
     modifiers (take i' score) i oct semi dur pd = Inr (oct', semi', dur', i')"
proof (induction i oct semi dur pd rule: modifiers_induct[of score])
  case (stop i oct semi dur pd)
  then have "i' = i" "oct' = oct" "semi' = semi" "dur' = dur"
    by (subst (asm) modifiers_step, simp)+
  then show ?case by (subst modifiers_step) simp
next
  case (pitch_stop i oct semi dur)
  then have "i' = i" "oct' = oct" "semi' = semi" "dur' = dur"
    by (subst (asm) modifiers_step, simp)+
  then show ?case by (subst modifiers_step) simp
next
  case (pitch i oct semi dur)
  from pitch.prems pitch.hyps
  have rec: "modifiers score (Suc i) (oct + oct_step (score ! i)) (semi + semi_step (score ! i))
          dur False = Inr (oct', semi', dur', i')"
    by (subst (asm) modifiers_step) simp
  from modifiers_cursor_ge[OF rec] have lt: "i < i'" by simp
  with pitch.hyps have "i < length (take i' score)" "take i' score ! i = score ! i" by simp_all
  with pitch.IH[OF rec] pitch.hyps show ?case by (subst modifiers_step) simp
next
  case (duration i oct semi dur pd)
  from duration.prems duration.hyps obtain d where
    d: "fadd dur (beats (score ! i)) = Inr d"
    and rec: "modifiers score (Suc i) oct semi d True = Inr (oct', semi', dur', i')"
    by (subst (asm) modifiers_step) (simp split: sum.splits)
  from modifiers_cursor_ge[OF rec] have lt: "i < i'" by simp
  with duration.hyps have "i < length (take i' score)" "take i' score ! i = score ! i"
    by simp_all
  with duration.IH[OF d rec] duration.hyps d show ?case by (subst modifiers_step) simp
next
  case (other i oct semi dur pd)
  then have "i' = i" "oct' = oct" "semi' = semi" "dur' = dur"
    by (subst (asm) modifiers_step, simp)+
  then show ?case by (subst modifiers_step) simp
qed

lemma parse_note_take:
  assumes "parse_note score i = Inr (num, oct, semi, dur, i')"
    and "i < length score" and "is_note_start (score ! i)"
  shows "parse_note (take i' score) i = Inr (num, oct, semi, dur, i')"
proof -
  let ?i2 = "snd (note_number score (snd (prefix_octave score i)))"
  from assms(1) have num: "num = fst (note_number score (snd (prefix_octave score i)))"
    and m: "modifiers score ?i2 (fst (prefix_octave score i)) 0 0 False
      = Inr (oct, semi, dur, i')"
    unfolding parse_note_Inr by simp_all
  from modifiers_cursor_ge[OF m] have le: "?i2 \<le> i'" .
  from note_start_cursor[of i score] assms(2,3) have lt: "i < ?i2"
    by (simp add: is_note_start_def)
  with le have ii': "i < i'" by simp
  then have p: "prefix_octave (take i' score) i = prefix_octave score i"
    by (simp add: prefix_octave_def)
  have n: "note_number (take i' score) (snd (prefix_octave score i))
      = note_number score (snd (prefix_octave score i))"
  proof (cases "score ! i = CHR ''`''")
    case True
    then have s: "snd (prefix_octave score i) = Suc i" by (simp add: prefix_octave_def)
    show ?thesis
    proof (cases "Suc i < length score \<and> is_note_digit (score ! Suc i)")
      case d: True
      with s have "?i2 = Suc (Suc i)" by (simp add: note_number_def)
      with le have "Suc i < i'" by simp
      with s d show ?thesis by (simp add: note_number_def)
    next
      case False
      with s show ?thesis
        by (cases "Suc i < i'") (auto simp: note_number_def)
    qed
  next
    case False
    then have "snd (prefix_octave score i) = i" by (simp add: prefix_octave_def)
    with ii' assms(2) show ?thesis by (simp add: note_number_def)
  qed
  from modifiers_take[OF m] num show ?thesis
    unfolding parse_note_Inr by (simp add: p n)
qed

lemma modifiers_stop_at_pitch:
  "modifiers score i oct semi dur pd = Inr (oct', semi', dur', i') \<Longrightarrow> i' < length score
     \<Longrightarrow> is_pitch_mod (score ! i')
     \<Longrightarrow> (i' = i \<and> pd) \<or> (i < i' \<and> is_duration_mod (score ! (i' - 1)))"
proof (induction i oct semi dur pd rule: modifiers_induct[of score])
  case (stop i oct semi dur pd)
  then have "i' = i" by (subst (asm) modifiers_step) simp
  with stop show ?case by simp
next
  case (pitch_stop i oct semi dur)
  then have "i' = i" by (subst (asm) modifiers_step) simp
  then show ?case by simp
next
  case (pitch i oct semi dur)
  from pitch.prems(1) pitch.hyps
  have rec: "modifiers score (Suc i) (oct + oct_step (score ! i)) (semi + semi_step (score ! i))
          dur False = Inr (oct', semi', dur', i')"
    by (subst (asm) modifiers_step) simp
  from pitch.IH[OF rec pitch.prems(2,3)] show ?case by auto
next
  case (duration i oct semi dur pd)
  from duration.prems(1) duration.hyps obtain d where
    d: "fadd dur (beats (score ! i)) = Inr d"
    and rec: "modifiers score (Suc i) oct semi d True = Inr (oct', semi', dur', i')"
    by (subst (asm) modifiers_step) (simp split: sum.splits)
  from duration.IH[OF d rec duration.prems(2,3)] duration.hyps show ?case by auto
next
  case (other i oct semi dur pd)
  then have "i' = i" by (subst (asm) modifiers_step) simp
  with other show ?case by simp
qed

lemma parse_note_stop_at_pitch:
  assumes "parse_note score i = Inr (num, oct, semi, dur, i')"
    and "i' < length score" and "is_pitch_mod (score ! i')"
  shows "is_duration_mod (score ! (i' - 1))"
proof -
  from assms(1) have "modifiers score (snd (note_number score (snd (prefix_octave score i))))
       (fst (prefix_octave score i)) 0 0 False = Inr (oct, semi, dur, i')"
    unfolding parse_note_Inr by simp
  from modifiers_stop_at_pitch[OF this assms(2,3)] show ?thesis by simp
qed

lemma modifiers_pitch_in_duration_phase:
  "i < length score \<Longrightarrow> is_pitch_mod (score ! i) \<Longrightarrow>
     modifiers score i oct semi dur True = Inr (oct, semi, dur, i)"
  by (subst modifiers_step) simp

lemma modifiers_pitch_before_duration:
  "i < length score \<Longrightarrow> is_pitch_mod (score ! i) \<Longrightarrow>
     modifiers score i oct semi dur False =
     modifiers score (Suc i) (oct + oct_step (score ! i)) (semi + semi_step (score ! i)) dur False"
  by (subst modifiers_step) simp

lemma accidental_not_note_start: "c = CHR ''s'' \<or> c = CHR ''b'' \<Longrightarrow> \<not> is_note_start c"
  by (auto simp: is_note_start_def is_note_digit_def less_eq_char_def)

lemma backquote_note_start: "is_note_start CHR ''`''"
  by (simp add: is_note_start_def)


subsection \<open>The power loop\<close>

lemma mult_chain_error_stays:
  "mult_chain base m = Inl e \<Longrightarrow> m \<le> n \<Longrightarrow> mult_chain base n = Inl e"
proof (induction n)
  case 0
  then show ?case by simp
next
  case (Suc n)
  show ?case
  proof (cases "m = Suc n")
    case True
    with Suc.prems show ?thesis by simp
  next
    case False
    with Suc have "mult_chain base n = Inl e" by simp
    then show ?thesis by simp
  qed
qed

lemma power_loop_chain:
  "0 \<le> i \<Longrightarrow> i \<le> ex \<Longrightarrow> mult_chain base (nat i) = Inr res \<Longrightarrow>
     power_loop base ex i res = mult_chain base (nat ex)"
proof (induction base ex i res rule: power_loop.induct)
  case (1 base ex i res)
  show ?case
  proof (cases "i < ex")
    case False
    with "1.prems" have "i = ex" by simp
    with "1.prems" show ?thesis by (subst power_loop.simps) simp
  next
    case True
    from "1.prems"(1) have suc: "nat (i + 1) = Suc (nat i)" by simp
    show ?thesis
    proof (cases "fmul res base")
      case (Inl e)
      with "1.prems"(3) have "mult_chain base (Suc (nat i)) = Inl e" by simp
      moreover from True "1.prems"(1) have "Suc (nat i) \<le> nat ex" by simp
      ultimately have "mult_chain base (nat ex) = Inl e" by (rule mult_chain_error_stays)
      with Inl True show ?thesis by (subst power_loop.simps) simp
    next
      case (Inr r)
      with "1.prems"(3) have "mult_chain base (nat (i + 1)) = Inr r" by (simp add: suc)
      with "1.IH"[OF True Inr] "1.prems"(1) True
      have "power_loop base ex (i + 1) r = mult_chain base (nat ex)" by simp
      with Inr True show ?thesis by (subst power_loop.simps) simp
    qed
  qed
qed

lemma power_f32_nonneg: "0 \<le> n \<Longrightarrow> power_f32 base n = mult_chain base (nat n)"
proof (cases "n = 0")
  case True
  then show ?thesis by (subst power_f32.simps) simp
next
  case False
  assume "0 \<le> n"
  with False have "power_f32 base n = power_loop base n 0 1"
    by (subst power_f32.simps) simp
  also from \<open>0 \<le> n\<close> have "\<dots> = mult_chain base (nat n)"
    by (intro power_loop_chain) simp_all
  finally show ?thesis .
qed

lemma power_f32_neg:
  assumes "0 < n" and "n \<le> INT_MAX"
  shows "power_f32 base (- n)
     = (case mult_chain base (nat n) of Inl e \<Rightarrow> Inl e | Inr p \<Rightarrow> fdiv 1 p)"
proof -
  from assms have "- n \<noteq> INT_MIN" by (simp add: INT_MIN_def INT_MAX_def)
  with assms(1) have "power_f32 base (- n)
      = (case power_f32 base n of Inl e \<Rightarrow> Inl e | Inr p \<Rightarrow> fdiv 1 p)"
    by (subst power_f32.simps) simp
  with assms(1) show ?thesis by (simp add: power_f32_nonneg)
qed

lemma calculate_ratio_rest: "calculate_ratio 0 oct semi = Inr 0"
  by (simp add: calculate_ratio_def)

lemma calculate_ratio_degree:
  assumes "1 \<le> d" and "d \<le> 7" and "\<bar>oct\<bar> \<le> 100000000" and "\<bar>semi\<bar> \<le> 100000000"
  shows "calculate_ratio d oct semi
     = power_f32 SEMITONE_STEP ([0, 2, 4, 5, 7, 9, 11] ! nat (d - 1) + oct * 12 + semi - 9)"
proof -
  from assms(1,2) consider "d = 1" | "d = 2" | "d = 3" | "d = 4" | "d = 5" | "d = 6" | "d = 7"
    by linarith
  then have "scale_semitones ! nat d = [0, 2, 4, 5, 7, 9, 11] ! nat (d - 1)
      \<and> 0 \<le> scale_semitones ! nat d \<and> scale_semitones ! nat d \<le> 11"
    by cases (simp_all add: scale_semitones_def)
  then have tab: "scale_semitones ! nat d = [0, 2, 4, 5, 7, 9, 11] ! nat (d - 1)"
    and rng: "0 \<le> scale_semitones ! nat d" "scale_semitones ! nat d \<le> 11"
    by simp_all
  have ii: "in_int x" if "- 2000000000 \<le> x" "x \<le> 2000000000" for x
    using that by (simp add: in_int_def INT_MIN_def INT_MAX_def)
  from rng assms(3,4) have "in_int (oct * 12)"
    "in_int (scale_semitones ! nat d + oct * 12)"
    "in_int (scale_semitones ! nat d + oct * 12 + semi)"
    "in_int (scale_semitones ! nat d + oct * 12 + semi - 9)"
    by (intro ii; linarith)+
  with assms(1,2) tab show ?thesis by (simp add: calculate_ratio_def Let_def)
qed

subsection \<open>The note cursors of the body loop\<close>

lemma next_start_here:
  "i < length score \<Longrightarrow> is_note_start (score ! i) \<Longrightarrow> next_start score i = i"
  by (simp add: next_start_def Cons_nth_drop_Suc[symmetric])

lemma next_start_skip:
  "i < length score \<Longrightarrow> \<not> is_note_start (score ! i) \<Longrightarrow>
     next_start score i = next_start score (Suc i)"
  by (simp add: next_start_def Cons_nth_drop_Suc[symmetric])

lemma note_cursor_skip:
  "i < length score \<Longrightarrow> \<not> is_note_start (score ! i) \<Longrightarrow>
     note_cursor score i n = note_cursor score (Suc i) n"
  by (cases n) (simp_all add: next_start_skip)

lemma note_cursor_next:
  "i < length score \<Longrightarrow> is_note_start (score ! i) \<Longrightarrow>
     parse_note score i = Inr (num, oct, semi, dur, i') \<Longrightarrow>
     note_cursor score i (Suc n) = note_cursor score i' n"
  by (simp add: next_start_here)

text \<open>
  Slot \<open>m\<close> of the array holds the note that the loop read at its note cursor number
  \<open>m - idx\<close>, counted from the state \<open>(i, idx)\<close>.
\<close>

lemma parse_body_nth_note:
  "parse_body N score ms_per_beat i idx ns = Inr (ns', k, j) \<Longrightarrow> N \<le> length ns
     \<Longrightarrow> idx \<le> m \<Longrightarrow> m < k
     \<Longrightarrow> \<exists>c num oct semi dur i2 r ms.
           note_cursor score i (m - idx) = Inr c
           \<and> c < length score \<and> is_note_start (score ! c)
           \<and> parse_note score c = Inr (num, oct, semi, dur, i2)
           \<and> calculate_ratio num oct semi = Inr r
           \<and> duration_ms_of ms_per_beat dur = Inr ms
           \<and> ns' ! m = \<lparr>ratio = r, duration_ms = ms\<rparr>"
proof (induction i idx ns rule: parse_body_induct[of score N _ ms_per_beat])
  case (halt i idx ns)
  then have "k = idx" by (auto simp: parse_body_stop)
  with halt.prems show ?case by simp
next
  case (emit_note i idx ns)
  from emit_note.prems(1) emit_note.hyps obtain num oct semi dur i' ns1 where
    pn: "parse_note score i = Inr (num, oct, semi, dur, i')"
    and em: "emit ns idx ms_per_beat num oct semi dur = Inr ns1"
    and lt: "i < i'"
    and rec: "parse_body N score ms_per_beat i' (Suc idx) ns1 = Inr (ns', k, j)"
    by (auto elim: parse_body_note_Inr)
  from emit_note.hyps(2) emit_note.prems(2) have idx: "idx < length ns" by simp
  from em obtain r ms where
    r: "calculate_ratio num oct semi = Inr r" and ms: "duration_ms_of ms_per_beat dur = Inr ms"
    and ns1: "ns1 = ns[idx := \<lparr>ratio = r, duration_ms = ms\<rparr>]"
    unfolding emit_Inr_iff[OF idx] by blast
  show ?case
  proof (cases "m = idx")
    case True
    from parse_body_shape[OF rec] have "take (Suc idx) ns' = take (Suc idx) ns1" by simp
    then have "take (Suc idx) ns' ! idx = take (Suc idx) ns1 ! idx" by simp
    then have "ns' ! idx = ns1 ! idx" by simp
    with ns1 idx have "ns' ! m = \<lparr>ratio = r, duration_ms = ms\<rparr>" by (simp add: True)
    moreover from emit_note.hyps True have "note_cursor score i (m - idx) = Inr i"
      by (simp add: next_start_here)
    ultimately show ?thesis using pn r ms emit_note.hyps by blast
  next
    case False
    with emit_note.prems(3) have le: "Suc idx \<le> m" by simp
    then have "m - idx = Suc (m - Suc idx)" by simp
    with note_cursor_next[OF emit_note.hyps(1,3) pn]
    have nc: "note_cursor score i (m - idx) = note_cursor score i' (m - Suc idx)" by simp
    from emit_length[OF em] emit_note.prems(2) have "N \<le> length ns1" by simp
    from emit_note.IH[OF pn em lt rec this le emit_note.prems(4)] show ?thesis
      unfolding nc .
  qed
next
  case (skip_char i idx ns)
  from skip_char.prems(1) skip_char.hyps
  have rec: "parse_body N score ms_per_beat (Suc i) idx ns = Inr (ns', k, j)"
    by (simp add: parse_body_skip)
  from skip_char.IH[OF rec skip_char.prems(2,3,4)] show ?case
    unfolding note_cursor_skip[OF skip_char.hyps(1,3)] .
qed

subsection \<open>The duration phase of a modifier run\<close>

lemma duration_not_pitch: "is_duration_mod c \<Longrightarrow> \<not> is_pitch_mod c"
  by (auto simp: is_pitch_mod_def is_duration_mod_def)

text \<open>Reading a duration modifier enters the duration phase, whatever the phase before.\<close>

lemma modifiers_duration_step:
  "i < length score \<Longrightarrow> is_duration_mod (score ! i) \<Longrightarrow>
     modifiers score i oct semi dur pd =
     (case fadd dur (beats (score ! i)) of
        Inl e \<Rightarrow> Inl e
      | Inr d \<Rightarrow> modifiers score (Suc i) oct semi d True)"
  by (subst modifiers_step) (simp add: duration_not_pitch)

text \<open>
  In the duration phase the run reads duration modifiers only: \<open>oct\<close> and \<open>semi\<close> stay
  as they are, and the run stops at the first character that is not a duration modifier.
\<close>

lemma modifiers_in_duration_phase:
  "modifiers score i oct semi dur pd = Inr (oct', semi', dur', i') \<Longrightarrow> pd \<Longrightarrow>
     oct' = oct \<and> semi' = semi \<and> i \<le> i'
     \<and> (\<forall>c \<in> set (slice score i i'). is_duration_mod c)
     \<and> (i' < length score \<longrightarrow> \<not> is_duration_mod (score ! i'))"
proof (induction i oct semi dur pd rule: modifiers_induct[of score])
  case (stop i oct semi dur pd)
  then show ?case by (subst (asm) modifiers_step) simp
next
  case (pitch_stop i oct semi dur)
  then show ?case by (subst (asm) modifiers_step) (simp add: pitch_not_duration)
next
  case (pitch i oct semi dur)
  then show ?case by simp
next
  case (duration i oct semi dur pd)
  from duration.prems(1) duration.hyps obtain d where
    d: "fadd dur (beats (score ! i)) = Inr d"
    and rec: "modifiers score (Suc i) oct semi d True = Inr (oct', semi', dur', i')"
    by (subst (asm) modifiers_step) (simp split: sum.splits)
  from duration.IH[OF d rec] have eq: "oct' = oct" "semi' = semi" and le: "Suc i \<le> i'"
    and cls: "\<forall>c \<in> set (slice score (Suc i) i'). is_duration_mod c"
    and stp: "i' < length score \<longrightarrow> \<not> is_duration_mod (score ! i')"
    by simp_all
  from le duration.hyps have "slice score i i' = score ! i # slice score (Suc i) i'"
    by (simp add: slice_step)
  with eq le cls stp duration.hyps show ?case by simp
next
  case (other i oct semi dur pd)
  then show ?case by (subst (asm) modifiers_step) simp
qed

lemma modifiers_after_duration:
  assumes "i < length score" and "is_duration_mod (score ! i)"
    and "modifiers score i oct semi dur pd = Inr (oct', semi', dur', i')"
  shows "oct' = oct \<and> semi' = semi \<and> i < i'
     \<and> (\<forall>c \<in> set (slice score i i'). is_duration_mod c)
     \<and> (i' < length score \<longrightarrow> \<not> is_duration_mod (score ! i'))"
proof -
  from assms(3) obtain d where
    rec: "modifiers score (Suc i) oct semi d True = Inr (oct', semi', dur', i')"
    unfolding modifiers_duration_step[OF assms(1,2)] by (auto split: sum.splits)
  from modifiers_in_duration_phase[OF rec]
  have eq: "oct' = oct" "semi' = semi" and le: "Suc i \<le> i'"
    and cls: "\<forall>c \<in> set (slice score (Suc i) i'). is_duration_mod c"
    and stp: "i' < length score \<longrightarrow> \<not> is_duration_mod (score ! i')"
    by simp_all
  from le assms(1) have "slice score i i' = score ! i # slice score (Suc i) i'"
    by (simp add: slice_step)
  with eq le cls stp assms(2) show ?thesis by simp
qed

text \<open>
  A run that reads the text cut at \<open>b\<close> up to its end, the last character read being a
  duration modifier, arrives at \<open>b\<close> in the duration phase when the text goes on.
\<close>

lemma modifiers_extend:
  "modifiers (take b score) i oct semi dur pd = Inr (oct', semi', dur', b) \<Longrightarrow> i < b
     \<Longrightarrow> b \<le> length score \<Longrightarrow> is_duration_mod (score ! (b - 1))
     \<Longrightarrow> modifiers score i oct semi dur pd = modifiers score b oct' semi' dur' True"
proof (induction i oct semi dur pd rule: modifiers_induct[of score])
  case (stop i oct semi dur pd)
  then show ?case by simp
next
  case (pitch_stop i oct semi dur)
  from pitch_stop.prems(2,3) pitch_stop.hyps
  have "i < length (take b score)" "take b score ! i = score ! i" by simp_all
  with pitch_stop.prems(1) pitch_stop.hyps have "b = i"
    by (subst (asm) modifiers_step) simp
  with pitch_stop.prems(2) show ?case by simp
next
  case (pitch i oct semi dur)
  from pitch.prems(2,3) pitch.hyps
  have t: "i < length (take b score)" "take b score ! i = score ! i" by simp_all
  with pitch.prems(1) pitch.hyps
  have rec: "modifiers (take b score) (Suc i) (oct + oct_step (score ! i))
       (semi + semi_step (score ! i)) dur False = Inr (oct', semi', dur', b)"
    by (subst (asm) modifiers_step) simp
  have "Suc i \<noteq> b"
  proof
    assume "Suc i = b"
    then have "score ! (b - 1) = score ! i" by auto
    with pitch.prems(4) pitch.hyps(2) show False by (simp add: pitch_not_duration)
  qed
  with pitch.prems(2) have "Suc i < b" by simp
  from pitch.IH[OF rec this pitch.prems(3,4)] pitch.hyps show ?case
    by (subst modifiers_step) simp
next
  case (duration i oct semi dur pd)
  from duration.prems(2,3) duration.hyps
  have t: "i < length (take b score)" "take b score ! i = score ! i" by simp_all
  with duration.prems(1) duration.hyps obtain d where
    d: "fadd dur (beats (score ! i)) = Inr d"
    and rec: "modifiers (take b score) (Suc i) oct semi d True = Inr (oct', semi', dur', b)"
    by (subst (asm) modifiers_step) (simp split: sum.splits)
  from d duration.hyps
  have step: "modifiers score i oct semi dur pd = modifiers score (Suc i) oct semi d True"
    by (subst modifiers_step) simp
  show ?case
  proof (cases "Suc i = b")
    case True
    with rec have "oct' = oct \<and> semi' = semi \<and> dur' = d"
      by (subst (asm) modifiers_step) simp
    with step True show ?thesis by simp
  next
    case False
    with duration.prems(2) have "Suc i < b" by simp
    from duration.IH[OF d rec this duration.prems(3,4)] step show ?thesis by simp
  qed
next
  case (other i oct semi dur pd)
  from other.prems(2,3) other.hyps
  have "i < length (take b score)" "take b score ! i = score ! i" by simp_all
  with other.prems(1) other.hyps have "b = i"
    by (subst (asm) modifiers_step) simp
  with other.prems(2) show ?case by simp
qed

text \<open>
  A note whose text, cut at \<open>b\<close>, is read to the end and ends with a duration modifier
  is read the same, and ends at \<open>b\<close>, when a pitch modifier follows at \<open>b\<close>.
\<close>

lemma parse_note_extend:
  assumes pn: "parse_note (take b score) a = Inr (n1, o1, s1, d1, b)"
    and ab: "a < b" and bl: "b < length score"
    and dm: "is_duration_mod (score ! (b - 1))" and pm: "is_pitch_mod (score ! b)"
  shows "parse_note score a = Inr (n1, o1, s1, d1, b)"
proof -
  from ab bl have "take b score ! a = score ! a" by simp
  then have po: "prefix_octave (take b score) a = prefix_octave score a"
    by (simp add: prefix_octave_def)
  let ?x = "snd (prefix_octave score a)"
  have xb: "?x < b"
  proof (cases "score ! a = CHR ''`''")
    case True
    then have x: "?x = Suc a" by (simp add: prefix_octave_def)
    have "Suc a \<noteq> b"
    proof
      assume "Suc a = b"
      with True have "score ! (b - 1) = CHR ''`''" by auto
      with dm show False by (simp add: is_duration_mod_def)
    qed
    with ab x show ?thesis by simp
  next
    case False
    with ab show ?thesis by (simp add: prefix_octave_def)
  qed
  with bl have nn: "note_number (take b score) ?x = note_number score ?x"
    by (simp add: note_number_def)
  let ?i2 = "snd (note_number score ?x)"
  from pn have num: "n1 = fst (note_number score ?x)"
    and m: "modifiers (take b score) ?i2 (fst (prefix_octave score a)) 0 0 False
        = Inr (o1, s1, d1, b)"
    unfolding parse_note_Inr po nn by simp_all
  from modifiers_cursor_ge[OF m] have le: "?i2 \<le> b" .
  have "?i2 \<noteq> b"
  proof
    assume e: "?i2 = b"
    show False
    proof (cases "?x < length score \<and> is_note_digit (score ! ?x)")
      case True
      then have "?i2 = Suc ?x" by (simp add: note_number_def)
      with e have "score ! (b - 1) = score ! ?x" by auto
      with True dm duration_mod_not_digit show False by auto
    next
      case False
      then have "?i2 = ?x" by (auto simp: note_number_def)
      with e xb show False by simp
    qed
  qed
  with le have lt: "?i2 < b" by simp
  from bl have "b \<le> length score" by simp
  from modifiers_extend[OF m lt this dm]
  have "modifiers score ?i2 (fst (prefix_octave score a)) 0 0 False
      = modifiers score b o1 s1 d1 True" .
  also from bl pm have "\<dots> = Inr (o1, s1, d1, b)" by (rule modifiers_pitch_in_duration_phase)
  finally show ?thesis unfolding parse_note_Inr using num by simp
qed

lemma parse_note_lowered:
  assumes "score ! i = CHR ''`''" and "Suc i < length score" and "is_note_digit (score ! Suc i)"
    and "parse_note score (Suc i) = Inr (num, oct, semi, dur, i')"
  shows "parse_note score i = Inr (num, oct - 1, semi, dur, i')"
proof -
  from assms(3) have nb: "score ! Suc i \<noteq> CHR ''`''"
    by (auto simp: is_note_digit_def less_eq_char_def)
  from assms(1-3) have a: "prefix_octave score i = (- 1, Suc i)"
    "note_number score (Suc i) = (digit_val (score ! Suc i), Suc (Suc i))"
    by (simp_all add: prefix_octave_def note_number_def)
  from nb have b: "prefix_octave score (Suc i) = (0, Suc i)" by (simp add: prefix_octave_def)
  from assms(4) have num: "num = digit_val (score ! Suc i)"
    and m: "modifiers score (Suc (Suc i)) 0 0 0 False = Inr (oct, semi, dur, i')"
    unfolding parse_note_Inr by (simp_all add: a b)
  from modifiers_oct_shift[of score "Suc (Suc i)" 0 "- 1" 0 0 False] m
  have "modifiers score (Suc (Suc i)) (- 1) 0 0 False = Inr (oct - 1, semi, dur, i')" by simp
  with num show ?thesis unfolding parse_note_Inr by (simp add: a)
qed

section \<open>Values of the model on concrete inputs\<close>

lemma SEMITONE_STEP_value: "SEMITONE_STEP = 8887421 / 8388608"
  by (simp add: f32_eval SEMITONE_STEP_def)

lemmas power_eval = power_f32.simps power_loop.simps INT_MIN_def SEMITONE_STEP_value

lemma power_m9: "power_f32 SEMITONE_STEP (- 9) = Inr (2493947 / 4194304)"
  by (simp add: power_eval f32_eval)

lemmas ratio_eval = calculate_ratio_def scale_semitones_def in_int_def INT_MAX_def INT_MIN_def Let_def

lemma ratio_1_0: "calculate_ratio 1 0 0 = Inr (2493947 / 4194304)"
  by (simp add: ratio_eval power_m9)

lemmas header_eval = parse_header_def parse_int_def parse_int_loop.simps is_digit_def
  digit_val_def less_eq_char_def in_int_def INT_MAX_def INT_MIN_def

lemmas note_eval = parse_note_def prefix_octave_def note_number_def modifiers.simps
  is_note_digit_def digit_val_def less_eq_char_def

lemma ms_per_beat_120: "fdiv 60000 120 = Inr 500"
  by (simp add: f32_eval)

lemma duration_500_1: "duration_ms_of 500 1 = Inr 500"
  by (simp add: duration_ms_of_def f32_eval)

lemma power_m7: "power_f32 SEMITONE_STEP (- 7) = Inr (2799361 / 4194304)"
  by (simp add: power_eval f32_eval)

lemma ratio_2_0: "calculate_ratio 2 0 0 = Inr (2799361 / 4194304)"
  by (simp add: ratio_eval power_m7)

lemma ms_per_beat_23: "fdiv 60000 23 = Inr (10685217 / 4096)"
  by (simp add: f32_eval)

lemma power_m19: "power_f32 SEMITONE_STEP (- 19) = Inr (11197439 / 33554432)"
  by (simp add: power_eval f32_eval)

lemma ratio_2_m1: "calculate_ratio 2 (- 1) 0 = Inr (11197439 / 33554432)"
  by (simp add: ratio_eval power_m19)

lemma duration_500_0: "duration_ms_of 500 0 = Inr 0"
  by (rule duration_ms_of_zero)

lemma power_3: "power_f32 SEMITONE_STEP 3 = Inr (4987897 / 4194304)"
  by (simp add: power_eval f32_eval)

lemma power_12: "power_f32 SEMITONE_STEP 12 = Inr (8388613 / 4194304)"
  by (simp add: power_eval f32_eval)

lemma ratio_1_1: "calculate_ratio 1 1 0 = Inr (4987897 / 4194304)"
  by (simp add: ratio_eval power_3)

lemma ratio_6_1: "calculate_ratio 6 1 0 = Inr (8388613 / 4194304)"
  by (simp add: ratio_eval power_12)

lemma power_m5: "power_f32 SEMITONE_STEP (- 5) = Inr (3142177 / 4194304)"
  by (simp add: power_eval f32_eval)

lemma power_m4: "power_f32 SEMITONE_STEP (- 4) = Inr (6658041 / 8388608)"
  by (simp add: power_eval f32_eval)

lemma power_m2: "power_f32 SEMITONE_STEP (- 2) = Inr (14946799 / 16777216)"
  by (simp add: power_eval f32_eval)

lemma power_0: "power_f32 SEMITONE_STEP 0 = Inr 1"
  by (simp add: power_eval)

lemma power_2: "power_f32 SEMITONE_STEP 2 = Inr (9415895 / 8388608)"
  by (simp add: power_eval f32_eval)

lemma ratio_3_0: "calculate_ratio 3 0 0 = Inr (3142177 / 4194304)"
  by (simp add: ratio_eval power_m5)

lemma ratio_4_0: "calculate_ratio 4 0 0 = Inr (6658041 / 8388608)"
  by (simp add: ratio_eval power_m4)

lemma ratio_5_0: "calculate_ratio 5 0 0 = Inr (14946799 / 16777216)"
  by (simp add: ratio_eval power_m2)

lemma ratio_6_0: "calculate_ratio 6 0 0 = Inr 1"
  by (simp add: ratio_eval power_0)

lemma ratio_7_0: "calculate_ratio 7 0 0 = Inr (9415895 / 8388608)"
  by (simp add: ratio_eval power_2)

section \<open>The claims\<close>

subsection \<open>C1: the two passes agree on the number of notes\<close>






subsection \<open>C2: pitch modifiers after a duration modifier\<close>

text \<open>
  Claim C2 (amended).  Within one note's modifier run: reading a duration modifier sets
  \<open>parsing_duration\<close>, whatever it was, and from a duration modifier on the run reads
  duration modifiers only: \<open>oct\<close> and \<open>semi\<close> are final, and the run ends at the first
  character that is not a duration modifier.  So once a duration modifier has been read, a
  pitch-modifier character (\<open>s\<close>, \<open>b\<close>, backquote) is not consumed; the run ends with the
  cursor on it and \<open>oct\<close>, \<open>semi\<close>, \<open>dur_mult\<close> unchanged.  Before the first duration
  modifier the character is consumed into the current note (\<open>s\<close>: \<open>semi + 1\<close>, \<open>b\<close>:
  \<open>semi - 1\<close>, backquote: \<open>oct + 1\<close>).
  What the outer loop then does with the character left under the cursor depends on the
  character: a backquote starts the next note (when the array is not full) and is its
  octave-down prefix, \<open>oct = -1\<close>; an \<open>s\<close> or a \<open>b\<close> is skipped and changes no note.
  For two adjacent notes, the first standing from cursor \<open>a\<close> to cursor \<open>b\<close> and ending
  with a duration modifier, with a backquote at \<open>b\<close>: the first note is read as if the
  score ended at \<open>b\<close>, its octave unaffected, and the run stops at \<open>b\<close>; the second note,
  read at \<open>b\<close>, has its octave one below that of the same text read without the
  backquote.  Conversely a note whose run stopped on a backquote ended with a duration
  modifier.
\<close>

theorem ambiguity_rule:
  "(k < length score \<and> is_duration_mod (score ! k) \<longrightarrow>
        modifiers score k o0 s0 d0 pd
          = (case fadd d0 (beats (score ! k)) of
               Inl e \<Rightarrow> Inl e
             | Inr d \<Rightarrow> modifiers score (Suc k) o0 s0 d True))
   \<and> (k < length score \<and> is_duration_mod (score ! k)
        \<and> modifiers score k o0 s0 d0 pd = Inr (o', s', d', k') \<longrightarrow>
        o' = o0 \<and> s' = s0 \<and> k < k'
      \<and> (\<forall>c \<in> set (slice score k k'). is_duration_mod c)
      \<and> (k' < length score \<longrightarrow> \<not> is_duration_mod (score ! k')))
   \<and> (i < length score \<and> is_pitch_mod (score ! i) \<longrightarrow>
        modifiers score i oct semi dur True = Inr (oct, semi, dur, i)
      \<and> modifiers score i oct semi dur False
          = modifiers score (Suc i) (oct + oct_step (score ! i))
              (semi + semi_step (score ! i)) dur False)
   \<and> (i < length score \<and> note_idx < N \<and> score ! i = CHR ''`'' \<longrightarrow>
        prefix_octave score i = (- 1, i + 1)
      \<and> parse_body N score ms_per_beat i note_idx ns
          = (case parse_note score i of
               Inl e \<Rightarrow> Inl e
             | Inr (num, oct', semi', dur', i') \<Rightarrow>
                 (case emit ns note_idx ms_per_beat num oct' semi' dur' of
                    Inl e \<Rightarrow> Inl e
                  | Inr ns' \<Rightarrow> parse_body N score ms_per_beat i' (note_idx + 1) ns')))
   \<and> (i < length score \<and> note_idx < N \<and> (score ! i = CHR ''s'' \<or> score ! i = CHR ''b'') \<longrightarrow>
        parse_body N score ms_per_beat i note_idx ns
          = parse_body N score ms_per_beat (Suc i) note_idx ns)
   \<and> (a < b \<and> b < length score \<and> parse_note (take b score) a = Inr (n1, o1, s1, d1, b)
        \<and> is_duration_mod (score ! (b - 1)) \<and> score ! b = CHR ''`'' \<longrightarrow>
        parse_note score a = Inr (n1, o1, s1, d1, b)
      \<and> (Suc b < length score \<and> is_note_digit (score ! Suc b)
           \<and> parse_note score (Suc b) = Inr (n2, o2, s2, d2, c) \<longrightarrow>
           parse_note score b = Inr (n2, o2 - 1, s2, d2, c)))
   \<and> (a < length score \<and> is_note_start (score ! a)
        \<and> parse_note score a = Inr (n1, o1, s1, d1, b)
        \<and> b < length score \<and> score ! b = CHR ''`'' \<longrightarrow>
        is_duration_mod (score ! (b - 1))
      \<and> parse_note (take b score) a = Inr (n1, o1, s1, d1, b)
      \<and> (Suc b < length score \<and> is_note_digit (score ! Suc b)
           \<and> parse_note score b = Inr (n2, o2, s2, d2, c) \<longrightarrow>
           parse_note score (Suc b) = Inr (n2, o2 + 1, s2, d2, c)))"
proof (intro conjI impI; (elim conjE)?)
  assume "k < length score" "is_duration_mod (score ! k)"
  then show "modifiers score k o0 s0 d0 pd
          = (case fadd d0 (beats (score ! k)) of
               Inl e \<Rightarrow> Inl e
             | Inr d \<Rightarrow> modifiers score (Suc k) o0 s0 d True)"
    by (rule modifiers_duration_step)
next
  assume h: "k < length score" "is_duration_mod (score ! k)"
    "modifiers score k o0 s0 d0 pd = Inr (o', s', d', k')"
  from modifiers_after_duration[OF h] show "o' = o0" "s' = s0" "k < k'"
    "\<forall>c \<in> set (slice score k k'). is_duration_mod c" by simp_all
next
  assume h: "k < length score" "is_duration_mod (score ! k)"
    "modifiers score k o0 s0 d0 pd = Inr (o', s', d', k')" and "k' < length score"
  with modifiers_after_duration[OF h] show "\<not> is_duration_mod (score ! k')" by simp
next
  assume "i < length score" "is_pitch_mod (score ! i)"
  then show "modifiers score i oct semi dur True = Inr (oct, semi, dur, i)"
    by (rule modifiers_pitch_in_duration_phase)
next
  assume "i < length score" "is_pitch_mod (score ! i)"
  then show "modifiers score i oct semi dur False
          = modifiers score (Suc i) (oct + oct_step (score ! i))
              (semi + semi_step (score ! i)) dur False"
    by (rule modifiers_pitch_before_duration)
next
  assume "score ! i = CHR ''`''"
  then show "prefix_octave score i = (- 1, i + 1)" by (simp add: prefix_octave_def)
next
  assume "i < length score" "note_idx < N" "score ! i = CHR ''`''"
  then show "parse_body N score ms_per_beat i note_idx ns
          = (case parse_note score i of
               Inl e \<Rightarrow> Inl e
             | Inr (num, oct', semi', dur', i') \<Rightarrow>
                 (case emit ns note_idx ms_per_beat num oct' semi' dur' of
                    Inl e \<Rightarrow> Inl e
                  | Inr ns' \<Rightarrow> parse_body N score ms_per_beat i' (note_idx + 1) ns'))"
    by (simp add: parse_body_note backquote_note_start)
next
  assume "i < length score" "note_idx < N" "score ! i = CHR ''s'' \<or> score ! i = CHR ''b''"
  then show "parse_body N score ms_per_beat i note_idx ns
          = parse_body N score ms_per_beat (Suc i) note_idx ns"
    by (simp add: parse_body_skip accidental_not_note_start)
next
  assume h: "parse_note (take b score) a = Inr (n1, o1, s1, d1, b)" "a < b" "b < length score"
    "is_duration_mod (score ! (b - 1))" and bq: "score ! b = CHR ''`''"
  from bq have "is_pitch_mod (score ! b)" by (simp add: is_pitch_mod_def)
  with h show "parse_note score a = Inr (n1, o1, s1, d1, b)"
    by (rule parse_note_extend)
next
  assume "score ! b = CHR ''`''" "Suc b < length score" "is_note_digit (score ! Suc b)"
    "parse_note score (Suc b) = Inr (n2, o2, s2, d2, c)"
  then show "parse_note score b = Inr (n2, o2 - 1, s2, d2, c)"
    by (rule parse_note_lowered)
next
  assume pn: "parse_note score a = Inr (n1, o1, s1, d1, b)" and len: "b < length score"
    and bq: "score ! b = CHR ''`''"
  from bq have "is_pitch_mod (score ! b)" by (simp add: is_pitch_mod_def)
  from parse_note_stop_at_pitch[OF pn len this]
  show "is_duration_mod (score ! (b - 1))" .
next
  assume "parse_note score a = Inr (n1, o1, s1, d1, b)" "a < length score"
    "is_note_start (score ! a)"
  then show "parse_note (take b score) a = Inr (n1, o1, s1, d1, b)"
    by (rule parse_note_take)
next
  assume "score ! b = CHR ''`''" "Suc b < length score" "is_note_digit (score ! Suc b)"
    "parse_note score b = Inr (n2, o2, s2, d2, c)"
  then show "parse_note score (Suc b) = Inr (n2, o2 + 1, s2, d2, c)"
    by (rule parse_note_prefixed)
qed

lemma c2_notes_s:
  "parse_note ''1,s2'' 0 = Inr (1, 0, 0, 1, 2)"
  "parse_note ''1,s2'' 3 = Inr (2, 0, 0, 0, 4)"
  by (simp_all add: note_eval f32_eval)

lemma c2_state_s:
  "parse_state 2 ''1,s2''
     = Inr ([\<lparr>ratio = 2493947 / 4194304, duration_ms = 500\<rparr>,
             \<lparr>ratio = 2799361 / 4194304, duration_ms = 0\<rparr>], 2, 4)"
  by (simp add: parse_state_def parse_header_def ms_per_beat_120 empty_notes_def
      replicate_numeral parse_body.simps is_note_digit_def less_eq_char_def c2_notes_s
      emit_eval[OF _ ratio_1_0 duration_500_1] emit_eval[OF _ ratio_2_0 duration_500_0])

text \<open>
  The claim as stated fails where the pitch modifier left under the cursor is an
  accidental: in \<open>"1,s2"\<close> the first note's run stops on the \<open>s\<close>, the outer loop skips
  it, and the second note is read at the \<open>2\<close> with \<open>oct = 0\<close>: its ratio is that of
  degree 2 in the home octave, not one octave down.
\<close>

theorem accidental_not_prefix_counterexample:
  "parse_note ''1,s2'' 0 = Inr (1, 0, 0, 1, 2)
   \<and> ''1,s2'' ! 2 = CHR ''s''
   \<and> parse_note ''1,s2'' 3 = Inr (2, 0, 0, 0, 4)
   \<and> parse_state 2 ''1,s2''
       = Inr ([\<lparr>ratio = 2493947 / 4194304, duration_ms = 500\<rparr>,
               \<lparr>ratio = 2799361 / 4194304, duration_ms = 0\<rparr>], 2, 4)
   \<and> calculate_ratio 2 0 0 = Inr (2799361 / 4194304)
   \<and> calculate_ratio 2 (- 1) 0 = Inr (11197439 / 33554432)"
  by (simp add: c2_notes_s c2_state_s ratio_2_0 ratio_2_m1)

lemma c2_notes_q:
  "parse_note ''1,`2,'' 0 = Inr (1, 0, 0, 1, 2)"
  "parse_note ''1,`2,'' 2 = Inr (2, - 1, 0, 1, 5)"
  by (simp_all add: note_eval f32_eval)

lemma c2_parts_q:
  "parse_note (take 2 ''1,`2,'') 0 = Inr (1, 0, 0, 1, 2)"
  "parse_note ''1,`2,'' 3 = Inr (2, 0, 0, 1, 5)"
  "modifiers ''1,`2,'' 1 0 0 0 False = Inr (0, 0, 1, 2)"
  by (simp_all add: note_eval f32_eval)

lemma c2_state_q:
  "parse_state 2 ''1,`2,''
     = Inr ([\<lparr>ratio = 2493947 / 4194304, duration_ms = 500\<rparr>,
             \<lparr>ratio = 11197439 / 33554432, duration_ms = 500\<rparr>], 2, 5)"
  by (simp add: parse_state_def parse_header_def ms_per_beat_120 empty_notes_def
      replicate_numeral parse_body.simps is_note_digit_def less_eq_char_def c2_notes_q
      emit_eval[OF _ ratio_1_0 duration_500_1] emit_eval[OF _ ratio_2_m1 duration_500_1])

theorem ambiguity_rule_witness:
  "modifiers ''1,`2,'' 1 0 0 0 False = modifiers ''1,`2,'' 2 0 0 1 True
   \<and> modifiers ''1,`2,'' 1 0 0 0 False = Inr (0, 0, 1, 2)
   \<and> slice ''1,`2,'' 1 2 = '',''
   \<and> \<not> is_duration_mod (''1,`2,'' ! 2)
   \<and> modifiers ''1,`2,'' 2 0 0 1 True = Inr (0, 0, 1, 2)
   \<and> prefix_octave ''1,`2,'' 2 = (- 1, 3)
   \<and> parse_note (take 2 ''1,`2,'') 0 = Inr (1, 0, 0, 1, 2)
   \<and> is_duration_mod (''1,`2,'' ! (2 - 1))
   \<and> ''1,`2,'' ! 2 = CHR ''`''
   \<and> parse_note ''1,`2,'' 0 = Inr (1, 0, 0, 1, 2)
   \<and> parse_note ''1,`2,'' 3 = Inr (2, 0, 0, 1, 5)
   \<and> parse_note ''1,`2,'' 2 = Inr (2, - 1, 0, 1, 5)
   \<and> parse_state 2 ''1,`2,''
       = Inr ([\<lparr>ratio = 2493947 / 4194304, duration_ms = 500\<rparr>,
               \<lparr>ratio = 11197439 / 33554432, duration_ms = 500\<rparr>], 2, 5)
   \<and> parse_body 2 ''1,s2'' 500 2 1 (empty_notes 2) = parse_body 2 ''1,s2'' 500 3 1 (empty_notes 2)"
proof -
  note R = ambiguity_rule[where score = "''1,`2,''" and k = 1 and ?o0.0 = 0 and ?s0.0 = 0
      and ?d0.0 = 0 and pd = False and o' = 0 and s' = 0 and d' = 1 and k' = 2
      and i = 2 and oct = 0 and semi = 0 and dur = 1 and note_idx = 1 and N = 2
      and ms_per_beat = 500 and ns = "empty_notes 2"
      and a = 0 and ?n1.0 = 1 and ?o1.0 = 0 and ?s1.0 = 0 and ?d1.0 = 1 and b = 2
      and ?n2.0 = 2 and ?o2.0 = 0 and ?s2.0 = 0 and ?d2.0 = 1 and c = 5]
  have f: "fadd 0 1 = Inr 1" by (simp add: f32_eval)
  have chars: "is_duration_mod (''1,`2,'' ! 1)" "is_pitch_mod (''1,`2,'' ! 2)"
    "is_note_digit (''1,`2,'' ! 3)" "beats (''1,`2,'' ! 1) = 1" "slice ''1,`2,'' 1 2 = '',''"
    "''1,`2,'' ! 2 = CHR ''`''" "is_duration_mod (''1,`2,'' ! (2 - 1))"
    by (simp_all add: is_duration_mod_def is_pitch_mod_def is_note_digit_def less_eq_char_def
        beats_def slice_def)
  have c1: "modifiers ''1,`2,'' 1 0 0 0 False = modifiers ''1,`2,'' 2 0 0 1 True"
    using R[THEN conjunct1] chars(1,4) f by (simp add: numeral_2_eq_2)
  have c2: "\<not> is_duration_mod (''1,`2,'' ! 2)"
    using R[THEN conjunct2, THEN conjunct1] chars(1) c2_parts_q(3) by simp
  have c3: "modifiers ''1,`2,'' 2 0 0 1 True = Inr (0, 0, 1, 2)"
    using R[THEN conjunct2, THEN conjunct2, THEN conjunct1] chars(2) by simp
  have c4: "prefix_octave ''1,`2,'' 2 = (- 1, 3)"
    using R[THEN conjunct2, THEN conjunct2, THEN conjunct2, THEN conjunct1] by simp
  have c6: "parse_note ''1,`2,'' 0 = Inr (1, 0, 0, 1, 2)
      \<and> parse_note ''1,`2,'' 2 = Inr (2, - 1, 0, 1, 5)"
    using R[THEN conjunct2, THEN conjunct2, THEN conjunct2, THEN conjunct2, THEN conjunct2,
        THEN conjunct1] c2_parts_q(1,2) chars(1,3)
    by simp
  have B: "parse_body 2 ''1,s2'' 500 2 1 (empty_notes 2)
      = parse_body 2 ''1,s2'' 500 3 1 (empty_notes 2)"
    using ambiguity_rule[where score = "''1,s2''" and i = 2 and note_idx = 1 and N = 2
        and ms_per_beat = 500 and ns = "empty_notes 2", THEN conjunct2, THEN conjunct2,
        THEN conjunct2, THEN conjunct2, THEN conjunct1]
    by (simp add: numeral_3_eq_3)
  from c1 c2 c3 c4 c6 B c2_parts_q(1,2,3) chars(5,6,7) c2_state_q show ?thesis
    by (intro conjI) (rule conjunct1, assumption | rule conjunct2, assumption | assumption)+
qed

subsection \<open>C3: the scale example\<close>

lemma c3_header: "parse_header ''(120)1,2,3,4,5,6,7,1`'' = Inr (120, 5)"
  by (simp add: header_eval f32_eval)

lemma c3_notes:
  "parse_note ''(120)1,2,3,4,5,6,7,1`'' 5 = Inr (1, 0, 0, 1, 7)"
  "parse_note ''(120)1,2,3,4,5,6,7,1`'' 7 = Inr (2, 0, 0, 1, 9)"
  "parse_note ''(120)1,2,3,4,5,6,7,1`'' 9 = Inr (3, 0, 0, 1, 11)"
  "parse_note ''(120)1,2,3,4,5,6,7,1`'' 11 = Inr (4, 0, 0, 1, 13)"
  "parse_note ''(120)1,2,3,4,5,6,7,1`'' 13 = Inr (5, 0, 0, 1, 15)"
  "parse_note ''(120)1,2,3,4,5,6,7,1`'' 15 = Inr (6, 0, 0, 1, 17)"
  "parse_note ''(120)1,2,3,4,5,6,7,1`'' 17 = Inr (7, 0, 0, 1, 19)"
  "parse_note ''(120)1,2,3,4,5,6,7,1`'' 19 = Inr (1, 1, 0, 0, 21)"
  by (simp_all add: note_eval f32_eval)

lemma c3_count: "count_notes ''(120)1,2,3,4,5,6,7,1`'' = 8"
  by (simp add: count_notes_def skip_header.simps skip_to_close.simps count_body.simps
      is_note_digit_def less_eq_char_def)

lemma c3_state:
  "parse_state 8 ''(120)1,2,3,4,5,6,7,1`''
     = Inr ([\<lparr>ratio = 2493947 / 4194304, duration_ms = 500\<rparr>,
             \<lparr>ratio = 2799361 / 4194304, duration_ms = 500\<rparr>,
             \<lparr>ratio = 3142177 / 4194304, duration_ms = 500\<rparr>,
             \<lparr>ratio = 6658041 / 8388608, duration_ms = 500\<rparr>,
             \<lparr>ratio = 14946799 / 16777216, duration_ms = 500\<rparr>,
             \<lparr>ratio = 1, duration_ms = 500\<rparr>,
             \<lparr>ratio = 9415895 / 8388608, duration_ms = 500\<rparr>,
             \<lparr>ratio = 4987897 / 4194304, duration_ms = 0\<rparr>], 8, 21)"
  by (simp add: parse_state_def c3_header ms_per_beat_120 empty_notes_def
      replicate_numeral parse_body.simps is_note_digit_def less_eq_char_def c3_notes
      emit_eval[OF _ ratio_1_0 duration_500_1] emit_eval[OF _ ratio_2_0 duration_500_1]
      emit_eval[OF _ ratio_3_0 duration_500_1] emit_eval[OF _ ratio_4_0 duration_500_1]
      emit_eval[OF _ ratio_5_0 duration_500_1] emit_eval[OF _ ratio_6_0 duration_500_1]
      emit_eval[OF _ ratio_7_0 duration_500_1] emit_eval[OF _ ratio_1_1 duration_500_0])

text \<open>
  The claim as stated fails twice on the code.  The last note of the score, \<open>1`\<close>, has
  no duration modifier, so its \<open>dur_mult\<close> stays \<open>0.0f\<close> and its \<open>duration_ms\<close> is 0, not
  500; and its ratio, \<open>4987897 / 4194304\<close>, is not twice the first note's
  \<open>2493947 / 4194304\<close>.
\<close>

theorem scale_example_counterexample:
  "ems ''(120)1,2,3,4,5,6,7,1`''
     = Inr [\<lparr>ratio = 2493947 / 4194304, duration_ms = 500\<rparr>,
            \<lparr>ratio = 2799361 / 4194304, duration_ms = 500\<rparr>,
            \<lparr>ratio = 3142177 / 4194304, duration_ms = 500\<rparr>,
            \<lparr>ratio = 6658041 / 8388608, duration_ms = 500\<rparr>,
            \<lparr>ratio = 14946799 / 16777216, duration_ms = 500\<rparr>,
            \<lparr>ratio = 1, duration_ms = 500\<rparr>,
            \<lparr>ratio = 9415895 / 8388608, duration_ms = 500\<rparr>,
            \<lparr>ratio = 4987897 / 4194304, duration_ms = 0\<rparr>]
   \<and> duration_ms \<lparr>ratio = 4987897 / 4194304, duration_ms = 0\<rparr> \<noteq> 500
   \<and> ratio \<lparr>ratio = 4987897 / 4194304, duration_ms = 0\<rparr>
       \<noteq> 2 * ratio \<lparr>ratio = 2493947 / 4194304, duration_ms = 500\<rparr>"
  using parse_of_state[OF c3_state] by (simp add: ems_def c3_count)

text \<open>
  Claim C3 (amended).  Parsing the input string \<open>"(120)1,2,3,4,5,6,7,1`"\<close> produces
  exactly 8 note events.  The first seven have \<open>duration_ms = 500\<close>; the eighth, which
  has no duration modifier, has \<open>duration_ms = 0\<close>.  The ratios are strictly increasing
  from the first event to the last, and the last event's ratio is double the first
  event's ratio up to single-precision rounding: it exceeds the double by
  \<open>3 / 4194304\<close>, less than \<open>10\<^sup>-\<^sup>6\<close>.
\<close>

theorem scale_example:
  "count_notes ''(120)1,2,3,4,5,6,7,1`'' = 8
   \<and> (\<exists>ns. ems ''(120)1,2,3,4,5,6,7,1`'' = Inr ns
          \<and> length ns = 8
          \<and> map duration_ms ns = [500, 500, 500, 500, 500, 500, 500, 0]
          \<and> map ratio ns
              = [2493947 / 4194304, 2799361 / 4194304, 3142177 / 4194304, 6658041 / 8388608,
                 14946799 / 16777216, 1, 9415895 / 8388608, 4987897 / 4194304]
          \<and> sorted_wrt (<) (map ratio ns)
          \<and> ratio (ns ! 7) - 2 * ratio (ns ! 0) = 3 / 4194304
          \<and> \<bar>ratio (ns ! 7) - 2 * ratio (ns ! 0)\<bar> < 1 / 1000000)"
  using parse_of_state[OF c3_state] by (simp add: ems_def c3_count)

subsection \<open>C4: the pitch resolver\<close>

text \<open>
  The claim as stated fails if the value returned is to be \<open>2\<close> to the power
  \<open>total_semitones / 12\<close> itself: for scale degree 6 one octave up the total is 12
  semitones, \<open>2\<close> to the power \<open>12 / 12\<close> is \<open>2\<close>, and the twelve single-precision multiplications by
  \<open>SEMITONE_STEP\<close> give \<open>8388613 / 4194304\<close>.
\<close>

theorem ratio_exact_counterexample:
  "calculate_ratio 6 1 0 = Inr (8388613 / 4194304)
   \<and> scale_semitones ! 6 + 1 * 12 + 0 - 9 = 12
   \<and> (of_rat (8388613 / 4194304) :: real) \<noteq> 2 powr (12 / 12)"
  by (simp add: ratio_6_1 scale_semitones_def of_rat_divide)

text \<open>
  Claim C4 (amended).  The pitch resolver is a function of
  \<open>(scale_degree, octave_offset, semitone_offset)\<close>.  For scale degree 0 it returns 0
  whatever the other two arguments.  For a degree 1..7 (and offsets that do not
  overflow \<open>int\<close>) it takes the degree's entry of the table \<open>{0, 2, 4, 5, 7, 9, 11}\<close>, adds
  \<open>octave_offset * 12\<close> and \<open>semitone_offset\<close>, subtracts 9, and returns \<open>SEMITONE_STEP\<close>
  raised to that integer by repeated single-precision multiplication starting from 1
  (for a negative exponent, 1 divided by the power for the absolute value), with no
  transcendental function.  \<open>SEMITONE_STEP\<close> is the single-precision constant
  \<open>8887421 / 8388608\<close>, whose twelfth power is within \<open>2 * 10\<^sup>-\<^sup>6\<close> of 2: the result
  approximates \<open>2\<close> to the power \<open>total_semitones / 12\<close> and is in general not equal to it.
\<close>

theorem pitch_resolver:
  "calculate_ratio 0 oct semi = Inr 0
   \<and> (1 \<le> d \<and> d \<le> 7 \<and> \<bar>oct\<bar> \<le> 100000000 \<and> \<bar>semi\<bar> \<le> 100000000 \<longrightarrow>
        calculate_ratio d oct semi
          = power_f32 SEMITONE_STEP ([0, 2, 4, 5, 7, 9, 11] ! nat (d - 1) + oct * 12 + semi - 9))
   \<and> (0 \<le> n \<longrightarrow> power_f32 base n = mult_chain base (nat n))
   \<and> (0 < n \<and> n \<le> INT_MAX \<longrightarrow>
        power_f32 base (- n)
          = (case mult_chain base (nat n) of Inl e \<Rightarrow> Inl e | Inr p \<Rightarrow> fdiv 1 p))
   \<and> SEMITONE_STEP = 8887421 / 8388608
   \<and> \<bar>SEMITONE_STEP ^ 12 - 2\<bar> < 2 / 1000000"
proof (intro conjI impI; (elim conjE)?)
  show "calculate_ratio 0 oct semi = Inr 0" by (rule calculate_ratio_rest)
next
  assume "1 \<le> d" "d \<le> 7" "\<bar>oct\<bar> \<le> 100000000" "\<bar>semi\<bar> \<le> 100000000"
  then show "calculate_ratio d oct semi
          = power_f32 SEMITONE_STEP ([0, 2, 4, 5, 7, 9, 11] ! nat (d - 1) + oct * 12 + semi - 9)"
    by (rule calculate_ratio_degree)
next
  assume "0 \<le> n"
  then show "power_f32 base n = mult_chain base (nat n)" by (rule power_f32_nonneg)
next
  assume "0 < n" "n \<le> INT_MAX"
  then show "power_f32 base (- n)
          = (case mult_chain base (nat n) of Inl e \<Rightarrow> Inl e | Inr p \<Rightarrow> fdiv 1 p)"
    by (rule power_f32_neg)
next
  show "SEMITONE_STEP = 8887421 / 8388608" by (rule SEMITONE_STEP_value)
next
  show "\<bar>SEMITONE_STEP ^ 12 - 2\<bar> < 2 / 1000000"
    by (simp add: SEMITONE_STEP_value power_divide)
qed

theorem pitch_resolver_witness:
  "calculate_ratio 1 1 0 = power_f32 SEMITONE_STEP 3
   \<and> power_f32 SEMITONE_STEP 3 = mult_chain SEMITONE_STEP 3
   \<and> mult_chain SEMITONE_STEP 3 = Inr (4987897 / 4194304)
   \<and> calculate_ratio 1 0 0 = power_f32 SEMITONE_STEP (- 9)
   \<and> power_f32 SEMITONE_STEP (- 9)
       = (case mult_chain SEMITONE_STEP 9 of Inl e \<Rightarrow> Inl e | Inr p \<Rightarrow> fdiv 1 p)
   \<and> mult_chain SEMITONE_STEP 9 = Inr (14107907 / 8388608)
   \<and> fdiv 1 (14107907 / 8388608) = Inr (2493947 / 4194304)"
proof -
  have A: "calculate_ratio 1 1 0 = power_f32 SEMITONE_STEP 3"
    using pitch_resolver[where d = 1 and oct = 1 and semi = 0] by simp
  have B: "power_f32 SEMITONE_STEP 3 = mult_chain SEMITONE_STEP 3"
    using pitch_resolver[where n = 3 and base = SEMITONE_STEP] by simp
  have C: "calculate_ratio 1 0 0 = power_f32 SEMITONE_STEP (- 9)"
    using pitch_resolver[where d = 1 and oct = 0 and semi = 0] by simp
  have D: "power_f32 SEMITONE_STEP (- 9)
       = (case mult_chain SEMITONE_STEP 9 of Inl e \<Rightarrow> Inl e | Inr p \<Rightarrow> fdiv 1 p)"
    using pitch_resolver[where n = 9 and base = SEMITONE_STEP] by (simp add: INT_MAX_def)
  have E: "mult_chain SEMITONE_STEP 3 = Inr (4987897 / 4194304)"
    using B power_3 by simp
  have F: "fdiv 1 (14107907 / 8388608) = Inr (2493947 / 4194304)" by (simp add: f32_eval)
  have G: "mult_chain SEMITONE_STEP 9 = Inr (14107907 / 8388608)"
    by (simp add: numeral_eq_Suc SEMITONE_STEP_value f32_eval)
  from A B C D E F G show ?thesis by simp
qed

subsection \<open>C5: the duration of a note\<close>

lemma c5_headers:
  "parse_header ''(120)1,-'' = Inr (120, 5)"
  "parse_header ''(23)1__,-.'' = Inr (23, 4)"
  by (simp_all add: header_eval f32_eval)

lemma c5_notes:
  "parse_note ''(120)1,-'' 5 = Inr (1, 0, 0, 3 / 2, 8)"
  "parse_note ''(23)1__,-.'' 4 = Inr (1, 0, 0, 23 / 4, 10)"
  by (simp_all add: note_eval f32_eval)

lemma c5_durations:
  "duration_ms_of 500 (3 / 2) = Inr 750"
  "duration_ms_of (10685217 / 4096) (23 / 4) = Inr 14999"
  by (simp_all add: duration_ms_of_def f32_eval)

lemma c5_state_120:
  "parse_state 1 ''(120)1,-'' = Inr ([\<lparr>ratio = 2493947 / 4194304, duration_ms = 750\<rparr>], 1, 8)"
  by (simp add: parse_state_def c5_headers ms_per_beat_120 empty_notes_def
      parse_body.simps is_note_digit_def less_eq_char_def c5_notes
      emit_eval[OF _ ratio_1_0 c5_durations(1)])

lemma c5_state_23:
  "parse_state 1 ''(23)1__,-.'' = Inr ([\<lparr>ratio = 2493947 / 4194304, duration_ms = 14999\<rparr>], 1, 10)"
  by (simp add: parse_state_def c5_headers ms_per_beat_23 empty_notes_def
      parse_body.simps is_note_digit_def less_eq_char_def c5_notes
      emit_eval[OF _ ratio_1_0 c5_durations(2)])

text \<open>
  The claim as stated, with \<open>60000 / tempo\<close> and the product read as real-number
  arithmetic, fails: for \<open>"(23)1__,-."\<close> the note has \<open>2 + 2 + 1 + 0.5 + 0.25 = 5.75\<close>
  beats and \<open>round_down((60000 / 23) * 5.75) = 15000\<close>, while the code, which rounds the
  quotient \<open>60000.0f / 23.0f\<close> to \<open>10685217 / 4096\<close> and then the product, stores \<open>14999\<close>.
\<close>

theorem duration_exact_counterexample:
  "parse 1 ''(23)1__,-.'' = Inr [\<lparr>ratio = 2493947 / 4194304, duration_ms = 14999\<rparr>]
   \<and> nat \<lfloor>(60000 / 23) * (2 + 2 + 1 + 1 / 2 + 1 / 4 :: rat)\<rfloor> = 15000"
  using parse_of_state[OF c5_state_23] by simp

lemma c5_notes_2:
  "parse_note ''1,2_'' 0 = Inr (1, 0, 0, 1, 2)"
  "parse_note ''1,2_'' 2 = Inr (2, 0, 0, 2, 4)"
  by (simp_all add: note_eval f32_eval)

lemma c5_duration_2: "duration_ms_of 500 2 = Inr 1000"
  by (simp add: duration_ms_of_def f32_eval)

lemma c5_state_2:
  "parse_state 2 ''1,2_''
     = Inr ([\<lparr>ratio = 2493947 / 4194304, duration_ms = 500\<rparr>,
             \<lparr>ratio = 2799361 / 4194304, duration_ms = 1000\<rparr>], 2, 4)"
  by (simp add: parse_state_def parse_header_def ms_per_beat_120 empty_notes_def
      replicate_numeral parse_body.simps is_note_digit_def less_eq_char_def c5_notes_2
      emit_eval[OF _ ratio_1_0 duration_500_1] emit_eval[OF _ ratio_2_0 c5_duration_2])

lemma c5_cursor_2: "note_cursor ''1,2_'' 0 1 = Inr 2"
  by (simp add: next_start_def is_note_start_def is_note_digit_def less_eq_char_def
      c5_notes_2)

text \<open>
  Claim C5 (amended).  Slot \<open>m\<close> of the array returned by \<open>parse\<close> holds the note that
  the body loop read at its note cursor number \<open>m\<close>, counted from the cursor the header
  reader left, and the \<open>duration_ms\<close> of that slot is the single-precision product
  \<open>ms_per_beat * dur_mult\<close> rounded down, where \<open>ms_per_beat\<close> is the single-precision
  quotient \<open>60000.0f / bpm\<close> and \<open>dur_mult\<close> is the single-precision accumulation, from
  \<open>0\<close>, of the beats of the duration modifiers of that note (comma \<open>1\<close>, \<open>-\<close> \<open>0.5\<close>,
  \<open>.\<close> \<open>0.25\<close>, \<open>_\<close> \<open>2\<close>).  That accumulation is the exact sum as long as the sum is
  at most \<open>2\<^sup>2\<^sup>2\<close> beats.  A note with no duration modifier has \<open>duration_ms = 0\<close>.
  At tempo 120 a note followed by a comma and \<open>-\<close> has \<open>duration_ms = 750\<close>.
\<close>

theorem duration_resolution:
  assumes "parse_state N score = Inr (ns, k, j)" and "m < k"
  shows "(\<exists>bpm i0 ms_per_beat i num oct semi dur_mult i' p.
            parse_header score = Inr (bpm, i0) \<and> fdiv 60000 bpm = Inr ms_per_beat
          \<and> note_cursor score i0 m = Inr i
          \<and> i < length score \<and> is_note_start (score ! i)
          \<and> parse_note score i = Inr (num, oct, semi, dur_mult, i')
          \<and> accumulate 0 (filter is_duration_mod (slice score i i')) = Inr dur_mult
          \<and> (sum_list (map beats (filter is_duration_mod (slice score i i'))) \<le> 2 ^ 22
                \<longrightarrow> dur_mult = sum_list (map beats (filter is_duration_mod (slice score i i'))))
          \<and> (filter is_duration_mod (slice score i i') = [] \<longrightarrow> duration_ms (ns ! m) = 0)
          \<and> fmul ms_per_beat dur_mult = Inr p
          \<and> duration_ms (ns ! m) = nat \<lfloor>p\<rfloor>)
       \<and> parse 1 ''(120)1,-'' = Inr [\<lparr>ratio = 2493947 / 4194304, duration_ms = 750\<rparr>]"
proof -
  from assms(1) obtain bpm i0 ms_per_beat where
    hd: "parse_header score = Inr (bpm, i0)"
    and mpb: "fdiv 60000 bpm = Inr ms_per_beat"
    and body: "parse_body N score ms_per_beat i0 0 (empty_notes N) = Inr (ns, k, j)"
    by (auto simp: parse_state_def split: sum.splits)
  have "N \<le> length (empty_notes N)" by (simp add: empty_notes_def)
  from parse_body_nth_note[OF body this _ assms(2)]
  obtain i num oct semi dur i' r ms where
    nc: "note_cursor score i0 m = Inr i"
    and i: "i < length score" "is_note_start (score ! i)"
    and pn: "parse_note score i = Inr (num, oct, semi, dur, i')"
    and ms: "duration_ms_of ms_per_beat dur = Inr ms"
    and nm: "ns ! m = \<lparr>ratio = r, duration_ms = ms\<rparr>"
    by auto
  let ?mods = "filter is_duration_mod (slice score i i')"
  from parse_note_run[OF pn i] have acc: "accumulate 0 ?mods = Inr dur" .
  have exact: "dur = sum_list (map beats ?mods)" if "sum_list (map beats ?mods) \<le> 2 ^ 22"
  proof -
    have "\<forall>c \<in> set ?mods. is_duration_mod c" by simp
    from accumulate_exact_0[OF this that] acc show ?thesis by simp
  qed
  have zero: "duration_ms (ns ! m) = 0" if "?mods = []"
  proof -
    from that acc have "dur = 0" by simp
    with ms nm show ?thesis by (simp add: duration_ms_of_zero)
  qed
  from ms obtain p where p: "fmul ms_per_beat dur = Inr p" and cast: "f32_to_u32 p = Inr ms"
    by (auto simp: duration_ms_of_def split: sum.splits)
  from f32_to_u32_floor[OF cast] nm have "duration_ms (ns ! m) = nat \<lfloor>p\<rfloor>" by simp
  with hd mpb nc i pn acc exact zero p
  have "\<exists>bpm i0 ms_per_beat i num oct semi dur_mult i' p.
            parse_header score = Inr (bpm, i0) \<and> fdiv 60000 bpm = Inr ms_per_beat
          \<and> note_cursor score i0 m = Inr i
          \<and> i < length score \<and> is_note_start (score ! i)
          \<and> parse_note score i = Inr (num, oct, semi, dur_mult, i')
          \<and> accumulate 0 (filter is_duration_mod (slice score i i')) = Inr dur_mult
          \<and> (sum_list (map beats (filter is_duration_mod (slice score i i'))) \<le> 2 ^ 22
                \<longrightarrow> dur_mult = sum_list (map beats (filter is_duration_mod (slice score i i'))))
          \<and> (filter is_duration_mod (slice score i i') = [] \<longrightarrow> duration_ms (ns ! m) = 0)
          \<and> fmul ms_per_beat dur_mult = Inr p
          \<and> duration_ms (ns ! m) = nat \<lfloor>p\<rfloor>"
    by blast
  moreover have "parse 1 ''(120)1,-'' = Inr [\<lparr>ratio = 2493947 / 4194304, duration_ms = 750\<rparr>]"
    by (rule parse_of_state[OF c5_state_120])
  ultimately show ?thesis by blast
qed

theorem duration_resolution_witness:
  "parse_state 2 ''1,2_''
     = Inr ([\<lparr>ratio = 2493947 / 4194304, duration_ms = 500\<rparr>,
             \<lparr>ratio = 2799361 / 4194304, duration_ms = 1000\<rparr>], 2, 4)
   \<and> (1::nat) < 2
   \<and> parse_header ''1,2_'' = Inr (120, 0) \<and> fdiv 60000 120 = Inr 500
   \<and> note_cursor ''1,2_'' 0 1 = Inr 2
   \<and> parse_note ''1,2_'' 2 = Inr (2, 0, 0, 2, 4)
   \<and> filter is_duration_mod (slice ''1,2_'' 2 4) = ''_''
   \<and> sum_list (map beats ''_'') = 2
   \<and> (\<exists>p. fmul 500 2 = Inr p
          \<and> duration_ms ([\<lparr>ratio = 2493947 / 4194304, duration_ms = 500\<rparr>,
                           \<lparr>ratio = 2799361 / 4194304, duration_ms = 1000\<rparr>] ! 1) = nat \<lfloor>p\<rfloor>)
   \<and> parse 1 ''(120)1,-'' = Inr [\<lparr>ratio = 2493947 / 4194304, duration_ms = 750\<rparr>]"
proof -
  have lt: "(1::nat) < 2" by simp
  have hd: "parse_header ''1,2_'' = Inr (120, 0)" by (simp add: parse_header_def)
  have p: "fmul 500 2 = Inr 1000" by (simp add: f32_eval)
  have mods: "filter is_duration_mod (slice ''1,2_'' 2 4) = ''_''"
    "sum_list (map beats ''_'') = 2"
    by (simp_all add: slice_def is_duration_mod_def beats_def)
  from duration_resolution[OF c5_state_2 lt] c5_state_2 lt hd ms_per_beat_120 c5_cursor_2
    c5_notes_2(2) p mods
  show ?thesis by simp
qed

subsection \<open>C6: what the Note Counter counts\<close>

lemma c6_notes:
  "parse_note ''`'' 0 = Inr (0, - 1, 0, 0, 1)"
  "parse_note ''`s1'' 0 = Inr (0, - 1, 1, 0, 2)"
  "parse_note ''`s1'' 2 = Inr (1, 0, 0, 0, 3)"
  by (simp_all add: note_eval f32_eval)

lemma c6_counts: "count_notes ''`'' = 0" "count_notes ''`s1'' = 1"
  by (simp_all add: count_notes_def skip_header.simps count_body.simps
      is_note_digit_def less_eq_char_def)

lemma c6_state_1:
  "parse_state 1 ''`'' = Inr ([\<lparr>ratio = 0, duration_ms = 0\<rparr>], 1, 1)"
  by (simp add: parse_state_def parse_header_def ms_per_beat_120 empty_notes_def
      parse_body.simps is_note_digit_def less_eq_char_def c6_notes
      emit_eval[OF _ calculate_ratio_rest duration_500_0])

lemma c6_state_2:
  "parse_state 1 ''`s1'' = Inr ([\<lparr>ratio = 0, duration_ms = 0\<rparr>], 1, 2)"
  by (simp add: parse_state_def parse_header_def ms_per_beat_120 empty_notes_def
      parse_body.simps is_note_digit_def less_eq_char_def c6_notes
      emit_eval[OF _ calculate_ratio_rest duration_500_0])

lemma c6_state_3:
  "parse_state 2 ''`s1''
     = Inr ([\<lparr>ratio = 0, duration_ms = 0\<rparr>, \<lparr>ratio = 2493947 / 4194304, duration_ms = 0\<rparr>], 2, 3)"
  by (simp add: parse_state_def parse_header_def ms_per_beat_120 empty_notes_def
      replicate_numeral parse_body.simps is_note_digit_def less_eq_char_def c6_notes
      emit_eval[OF _ calculate_ratio_rest duration_500_0]
      emit_eval[OF _ ratio_1_0 duration_500_0])

text \<open>
  Claim C6.  The Note Counter counts the characters \<open>0\<close> to \<open>7\<close> of the body and nothing
  else: a backquote is skipped like any other character, although the scan's own
  comment names the prefix backquote as a note start and \<open>parse\<close> starts a note at it.
  On \<open>"`"\<close> the count is 0, while \<open>parse\<close> with room for one note writes a note there.
  On \<open>"`s1"\<close> the count is 1; \<open>parse\<close> reads two notes when given room for two, and
  with the counted capacity 1 the only slot goes to the rest begun by the backquote and
  the note \<open>1\<close> is lost.
\<close>

theorem backquote_not_counted:
  "count_notes score = length (filter is_note_digit (drop (skip_header score 0) score))
   \<and> \<not> is_note_digit CHR ''`'' \<and> is_note_start CHR ''`''
   \<and> count_notes ''`'' = 0
   \<and> parse_state 1 ''`'' = Inr ([\<lparr>ratio = 0, duration_ms = 0\<rparr>], 1, 1)
   \<and> count_notes ''`s1'' = 1
   \<and> parse_state 2 ''`s1''
       = Inr ([\<lparr>ratio = 0, duration_ms = 0\<rparr>, \<lparr>ratio = 2493947 / 4194304, duration_ms = 0\<rparr>], 2, 3)
   \<and> ems ''`s1'' = Inr [\<lparr>ratio = 0, duration_ms = 0\<rparr>]"
proof -
  have a: "count_notes score = length (filter is_note_digit (drop (skip_header score 0) score))"
    using count_notes_eq[of score] by (simp add: note_digits_def)
  have b: "\<not> is_note_digit CHR ''`''" "is_note_start CHR ''`''"
    by (simp_all add: is_note_digit_def is_note_start_def less_eq_char_def)
  have e: "ems ''`s1'' = Inr [\<lparr>ratio = 0, duration_ms = 0\<rparr>]"
    unfolding ems_def c6_counts(2) by (rule parse_of_state[OF c6_state_2])
  from a b c6_counts c6_state_1 c6_state_3 e show ?thesis by blast
qed

subsection \<open>C7: a capacity below the number of notes\<close>





subsection \<open>C8: one octave up\<close>

text \<open>
  The claim as stated fails: the ratio for degree 1 one octave up is
  \<open>4987897 / 4194304\<close>, and twice the ratio for degree 1 is \<open>4987894 / 4194304\<close>, also
  when the doubling is the single-precision product.
\<close>

theorem octave_double_counterexample:
  "calculate_ratio 1 1 0 = Inr (4987897 / 4194304)
   \<and> calculate_ratio 1 0 0 = Inr (2493947 / 4194304)
   \<and> (4987897 / 4194304 :: rat) \<noteq> 2 * (2493947 / 4194304)
   \<and> fmul 2 (2493947 / 4194304) = Inr (4987894 / 4194304)"
  by (simp add: ratio_1_1 ratio_1_0 f32_eval)

text \<open>
  Claim C8 (amended).  The ratio computed for scale degree 1 with \<open>octave_offset\<close> 1 is
  twice the ratio computed for scale degree 1 with \<open>octave_offset\<close> 0 (both with
  \<open>semitone_offset\<close> 0) up to the rounding of the single-precision multiplications: the
  two values are \<open>4987897 / 4194304\<close> and \<open>2493947 / 4194304\<close>, and the former exceeds
  the double of the latter by \<open>3 / 4194304\<close>, less than \<open>10\<^sup>-\<^sup>6\<close>.
\<close>

theorem octave_double_approx:
  "calculate_ratio 1 1 0 = Inr (4987897 / 4194304)
   \<and> calculate_ratio 1 0 0 = Inr (2493947 / 4194304)
   \<and> (4987897 / 4194304 :: rat) - 2 * (2493947 / 4194304) = 3 / 4194304
   \<and> (3 / 4194304 :: rat) < 1 / 1000000"
  by (simp add: ratio_1_1 ratio_1_0)

theorem octave_double_approx_witness:
  "calculate_ratio 1 1 0 = Inr (4987897 / 4194304)
   \<and> calculate_ratio 1 0 0 = Inr (2493947 / 4194304)"
  using octave_double_approx by simp

subsection \<open>C9: the header reader\<close>

lemma ms_per_beat_12: "fdiv 60000 12 = Inr 5000"
  by (simp add: f32_eval)

lemma duration_5000_1: "duration_ms_of 5000 1 = Inr 5000"
  by (simp add: duration_ms_of_def f32_eval)

lemma c9_headers:
  "parse_header ''(12a7,)3,'' = Inr (12, 3)"
  "parse_header ''(a)1,'' = Inr (0, 1)"
  by (simp_all add: header_eval f32_eval)

lemma c9_skips:
  "skip_header ''(12a7,)3,'' 0 = 7"
  "skip_header ''(a)1,'' 0 = 3"
  by (simp_all add: skip_header.simps skip_to_close.simps)

lemma c9_counts:
  "count_notes ''(12a7,)3,'' = 1"
  "count_notes ''(a)1,'' = 1"
  by (simp_all add: count_notes_def skip_header.simps skip_to_close.simps count_body.simps
      is_note_digit_def less_eq_char_def)

lemma c9_note: "parse_note ''(12a7,)3,'' 4 = Inr (7, 0, 0, 1, 6)"
  by (simp add: note_eval f32_eval)

lemma c9_state:
  "parse_state 1 ''(12a7,)3,'' = Inr ([\<lparr>ratio = 9415895 / 8388608, duration_ms = 5000\<rparr>], 1, 6)"
  by (simp add: parse_state_def c9_headers ms_per_beat_12 empty_notes_def
      parse_body.simps is_note_digit_def less_eq_char_def c9_note
      emit_eval[OF _ ratio_7_0 duration_5000_1])

lemma c9_fault: "parse_state 1 ''(a)1,'' = Inl Division_By_Zero"
  by (simp add: parse_state_def c9_headers fdiv_def)

text \<open>
  Claim C9.  The header lines of \<open>parse\<close> pass the closing parenthesis only when it is
  the character at which the digit run stopped; they have no loop that skips to it.
  The counting pass does skip to the closing parenthesis and past it, so the two passes
  of one literal start the body at different cursors.  On \<open>"(12a7,)3,"\<close> \<open>parse\<close>
  leaves the cursor at index 3, on the \<open>a\<close>, while \<open>count_notes\<close> starts its scan at
  index 7 and counts one note, the \<open>3\<close>; the literal then holds the note read from the
  \<open>7\<close> inside the header, and the \<open>3\<close> is lost.  On \<open>"(a)1,"\<close> the digit run is empty,
  the tempo is 0, and \<open>parse\<close> stops at the division \<open>60000.0f / bpm\<close>: a malformed
  header does raise an error.
\<close>

theorem header_close_not_skipped:
  "parse_header ''(12a7,)3,'' = Inr (12, 3)
   \<and> ''(12a7,)3,'' ! 3 = CHR ''a'' \<and> ''(12a7,)3,'' ! 6 = CHR '')''
   \<and> skip_header ''(12a7,)3,'' 0 = 7 \<and> ''(12a7,)3,'' ! 7 = CHR ''3''
   \<and> count_notes ''(12a7,)3,'' = 1
   \<and> parse_note ''(12a7,)3,'' 4 = Inr (7, 0, 0, 1, 6)
   \<and> ems ''(12a7,)3,'' = Inr [\<lparr>ratio = 9415895 / 8388608, duration_ms = 5000\<rparr>]
   \<and> calculate_ratio 7 0 0 = Inr (9415895 / 8388608)
   \<and> parse_header ''(a)1,'' = Inr (0, 1)
   \<and> ems ''(a)1,'' = Inl Division_By_Zero"
proof -
  have chars: "''(12a7,)3,'' ! 3 = CHR ''a''" "''(12a7,)3,'' ! 6 = CHR '')''"
    "''(12a7,)3,'' ! 7 = CHR ''3''"
    by simp_all
  have e1: "ems ''(12a7,)3,'' = Inr [\<lparr>ratio = 9415895 / 8388608, duration_ms = 5000\<rparr>]"
    unfolding ems_def c9_counts by (rule parse_of_state[OF c9_state])
  have e2: "ems ''(a)1,'' = Inl Division_By_Zero"
    unfolding ems_def c9_counts parse_def c9_fault by simp
  from c9_headers c9_skips(1) c9_counts(1) c9_note ratio_7_0 chars e1 e2
  show ?thesis by blast
qed

subsection \<open>C10: tempo zero\<close>

text \<open>
  Claim C10.  Nothing between the header and the division guards the tempo: whenever
  the header reader returns tempo 0, \<open>parse\<close> stops at \<open>60000.0f / bpm\<close> with a division by
  zero, whatever the capacity and the body, so before any note is emitted.  Scores that
  begin \<open>"()"\<close> or \<open>"(0)"\<close> are such inputs: the digit run is empty, or denotes zero.
\<close>

theorem zero_tempo_division:
  "(parse_header score = Inr (0, i) \<longrightarrow> parse_state N score = Inl Division_By_Zero)
   \<and> parse_header (''()'' @ rest) = Inr (0, 2)
   \<and> parse_header (''(0)'' @ rest) = Inr (0, 3)
   \<and> parse_state N (''()'' @ rest) = Inl Division_By_Zero
   \<and> parse_state N (''(0)'' @ rest) = Inl Division_By_Zero"
proof -
  have z: "parse_state N s = Inl Division_By_Zero" if "parse_header s = Inr (0, j)" for s j
    using that by (simp add: parse_state_def fdiv_def)
  have a: "parse_header (''()'' @ rest) = Inr (0, 2)"
    by (simp add: header_eval f32_eval)
  have b: "parse_header (''(0)'' @ rest) = Inr (0, 3)"
    by (simp add: header_eval f32_eval)
  from z[OF a] z[OF b] a b z show ?thesis by blast
qed

theorem zero_tempo_division_witness:
  "parse_header ''()1,'' = Inr (0, 2) \<and> parse_state 1 ''()1,'' = Inl Division_By_Zero"
proof -
  have a: "parse_header ''()1,'' = Inr (0, 2)" by (simp add: header_eval f32_eval)
  from zero_tempo_division[where score = "''()1,''" and i = 2 and N = 1] a
  show ?thesis by simp
qed

end
